theory Spec2Isabelle
  imports Main "HOL-Library.Word"
begin

unbundle bit_operations_syntax

section \<open>TOMOYO condition handling (security/tomoyo/condition.c)\<close>

subsection \<open>Data model\<close>

text \<open>
  The kernel of this repository is built for 32-bit ARM, so \<open>unsigned long\<close> is a
  32-bit word. Pointers to objects are addresses; \<open>NULL\<close> is \<open>None\<close>.
\<close>

type_synonym u8 = "8 word"
type_synonym u16 = "16 word"
type_synonym u32 = "32 word"
type_synonym ulong = "32 word"
type_synonym addr = nat

text \<open>
  \<open>enum tomoyo_conditions_index\<close>: one constructor for every enumerator that
  condition.c names. The enumeration itself is declared in common.h.
\<close>

datatype tomoyo_conditions_index =
    TOMOYO_TASK_UID
  | TOMOYO_TASK_EUID
  | TOMOYO_TASK_SUID
  | TOMOYO_TASK_FSUID
  | TOMOYO_TASK_GID
  | TOMOYO_TASK_EGID
  | TOMOYO_TASK_SGID
  | TOMOYO_TASK_FSGID
  | TOMOYO_TASK_PID
  | TOMOYO_TASK_PPID
  | TOMOYO_TYPE_IS_SOCKET
  | TOMOYO_TYPE_IS_SYMLINK
  | TOMOYO_TYPE_IS_FILE
  | TOMOYO_TYPE_IS_BLOCK_DEV
  | TOMOYO_TYPE_IS_DIRECTORY
  | TOMOYO_TYPE_IS_CHAR_DEV
  | TOMOYO_TYPE_IS_FIFO
  | TOMOYO_MODE_SETUID
  | TOMOYO_MODE_SETGID
  | TOMOYO_MODE_STICKY
  | TOMOYO_MODE_OWNER_READ
  | TOMOYO_MODE_OWNER_WRITE
  | TOMOYO_MODE_OWNER_EXECUTE
  | TOMOYO_MODE_GROUP_READ
  | TOMOYO_MODE_GROUP_WRITE
  | TOMOYO_MODE_GROUP_EXECUTE
  | TOMOYO_MODE_OTHERS_READ
  | TOMOYO_MODE_OTHERS_WRITE
  | TOMOYO_MODE_OTHERS_EXECUTE
  | TOMOYO_PATH1_UID
  | TOMOYO_PATH1_GID
  | TOMOYO_PATH1_INO
  | TOMOYO_PATH1_MAJOR
  | TOMOYO_PATH1_MINOR
  | TOMOYO_PATH1_PERM
  | TOMOYO_PATH1_TYPE
  | TOMOYO_PATH1_DEV_MAJOR
  | TOMOYO_PATH1_DEV_MINOR
  | TOMOYO_PATH2_UID
  | TOMOYO_PATH2_GID
  | TOMOYO_PATH2_INO
  | TOMOYO_PATH2_MAJOR
  | TOMOYO_PATH2_MINOR
  | TOMOYO_PATH2_PERM
  | TOMOYO_PATH2_TYPE
  | TOMOYO_PATH2_DEV_MAJOR
  | TOMOYO_PATH2_DEV_MINOR
  | TOMOYO_PATH1_PARENT_UID
  | TOMOYO_PATH1_PARENT_GID
  | TOMOYO_PATH1_PARENT_INO
  | TOMOYO_PATH1_PARENT_PERM
  | TOMOYO_PATH2_PARENT_UID
  | TOMOYO_PATH2_PARENT_GID
  | TOMOYO_PATH2_PARENT_INO
  | TOMOYO_PATH2_PARENT_PERM
  | TOMOYO_MAX_CONDITION_KEYWORD
  | TOMOYO_NUMBER_UNION

text \<open>
  \<open>enum tomoyo_path_stat_index\<close>, the four slots of \<open>obj->stat\<close>, in the order of
  their values.
\<close>

datatype tomoyo_path_stat_index =
    TOMOYO_PATH1
  | TOMOYO_PATH1_PARENT
  | TOMOYO_PATH2
  | TOMOYO_PATH2_PARENT

record tomoyo_condition_element =
  left :: tomoyo_conditions_index
  right :: tomoyo_conditions_index
  equals :: bool

record tomoyo_number_union =
  values_0 :: ulong
  values_1 :: ulong
  group :: "addr option"


text \<open>
  \<open>struct tomoyo_condition\<close>: the header (\<open>head.users\<close>, \<open>size\<close>, \<open>condc\<close>,
  \<open>numbers_count\<close>) and the two arrays that lie behind it in the same block, named
  after the cursors \<open>condp\<close> and \<open>numbers_p\<close> that walk them (\<open>size_c\<close> is the field
  \<open>size\<close>, a name HOL has taken). The structure is declared
  in common.h; \<open>tomoyo_condition\<close> reads \<open>condc\<close> into a \<open>u16\<close>, and the two counters
  are 16-bit words here, \<open>size\<close> a 32-bit one.
\<close>

record tomoyo_condition =
  users :: u32
  size_c :: u32
  condc :: u16
  numbers_count :: u16
  condp :: "tomoyo_condition_element list"
  numbers_p :: "tomoyo_number_union list"

text \<open>
  The part of an inode that \<open>tomoyo_get_attributes\<close> reads (\<open>s_dev\<close> is
  \<open>i_sb->s_dev\<close>), and a dentry with its inode and its parent. A dentry without a
  parent of its own is its own parent, as the root is. The types of the fields
  (\<open>uid_t\<close>, \<open>ino_t\<close>, \<open>mode_t\<close>, \<open>dev_t\<close>) come from headers outside condition.c; the
  evaluator converts each field to \<open>unsigned long\<close> when it reads it, and the fields are
  words of that width here.
\<close>

record inode =
  i_uid :: ulong
  i_gid :: ulong
  i_ino :: ulong
  i_mode :: ulong
  s_dev :: ulong
  i_rdev :: ulong

datatype dentry = Dentry (d_inode: "inode option") (d_parent: "dentry option")

record tomoyo_mini_stat =
  uid :: ulong
  gid :: ulong
  ino :: ulong
  mode :: ulong
  dev :: ulong
  rdev :: ulong

record tomoyo_obj_info =
  validate_done :: bool
  stat_valid :: "tomoyo_path_stat_index \<Rightarrow> bool"
  path1_dentry :: "dentry option"
  path2_dentry :: "dentry option"
  stat :: "tomoyo_path_stat_index \<Rightarrow> tomoyo_mini_stat"

record tomoyo_request_info =
  obj :: "tomoyo_obj_info option"

text \<open>
  What condition.c takes from outside. The constants of linux/stat.h and the macros of
  linux/kdev_t.h are parameters of the model; so are the credentials of the current
  task and the group test of the number-group subsystem.
\<close>

record stat_consts =
  S_IFSOCK :: ulong
  S_IFLNK :: ulong
  S_IFREG :: ulong
  S_IFBLK :: ulong
  S_IFDIR :: ulong
  S_IFCHR :: ulong
  S_IFIFO :: ulong
  S_ISUID :: ulong
  S_ISGID :: ulong
  S_ISVTX :: ulong
  S_IRUSR :: ulong
  S_IWUSR :: ulong
  S_IXUSR :: ulong
  S_IRGRP :: ulong
  S_IWGRP :: ulong
  S_IXGRP :: ulong
  S_IROTH :: ulong
  S_IWOTH :: ulong
  S_IXOTH :: ulong
  S_IFMT :: ulong
  S_IALLUGO :: ulong
  MAJOR :: "ulong \<Rightarrow> ulong"
  MINOR :: "ulong \<Rightarrow> ulong"

record current_task =
  current_uid :: ulong
  current_euid :: ulong
  current_suid :: ulong
  current_fsuid :: ulong
  current_gid :: ulong
  current_egid :: ulong
  current_sgid :: ulong
  current_fsgid :: ulong
  tomoyo_sys_getpid :: ulong
  tomoyo_sys_getppid :: ulong

type_synonym number_matches_group = "ulong \<Rightarrow> ulong \<Rightarrow> addr \<Rightarrow> bool"

subsection \<open>tomoyo_get_attributes\<close>

definition dget_parent :: "dentry \<Rightarrow> dentry" where
  "dget_parent d = (case d_parent d of None \<Rightarrow> d | Some p \<Rightarrow> p)"

text \<open>
  One round of the loop over \<open>i\<close>; the local variable \<open>dentry\<close> is carried from one
  round to the next.
\<close>

definition tomoyo_get_attributes_step ::
  "tomoyo_obj_info \<times> dentry option \<Rightarrow> tomoyo_path_stat_index \<Rightarrow> tomoyo_obj_info \<times> dentry option"
where
  "tomoyo_get_attributes_step s i =
     (let ob = fst s;
          dentry' = (case i of
                       TOMOYO_PATH1 \<Rightarrow> path1_dentry ob
                     | TOMOYO_PATH2 \<Rightarrow> path2_dentry ob
                     | _ \<Rightarrow> map_option dget_parent (snd s))
      in case dentry' of
           None \<Rightarrow> (ob, dentry')
         | Some d \<Rightarrow>
             (case d_inode d of
                None \<Rightarrow> (ob, dentry')
              | Some inode \<Rightarrow>
                  (ob\<lparr>stat := (stat ob)(i := \<lparr>uid = i_uid inode, gid = i_gid inode,
                                               ino = i_ino inode, mode = i_mode inode,
                                               dev = s_dev inode, rdev = i_rdev inode\<rparr>),
                      stat_valid := (stat_valid ob)(i := True)\<rparr>, dentry')))"

text \<open>
  The loop runs \<open>i\<close> from 0 below \<open>TOMOYO_MAX_PATH_STAT\<close>; the odd values are the two
  parents (the source's remark on \<open>i & 1\<close>), each after its own path.
\<close>

definition tomoyo_get_attributes :: "tomoyo_obj_info \<Rightarrow> tomoyo_obj_info" where
  "tomoyo_get_attributes ob =
     fst (foldl tomoyo_get_attributes_step (ob, None)
            [TOMOYO_PATH1, TOMOYO_PATH1_PARENT, TOMOYO_PATH2, TOMOYO_PATH2_PARENT])"

subsection \<open>tomoyo_condition\<close>

text \<open>The first inner switch of the default branch: which slot a path attribute reads.\<close>

definition tomoyo_stat_index :: "tomoyo_conditions_index \<Rightarrow> tomoyo_path_stat_index option" where
  "tomoyo_stat_index index =
     (case index of
        TOMOYO_PATH1_UID \<Rightarrow> Some TOMOYO_PATH1
      | TOMOYO_PATH1_GID \<Rightarrow> Some TOMOYO_PATH1
      | TOMOYO_PATH1_INO \<Rightarrow> Some TOMOYO_PATH1
      | TOMOYO_PATH1_MAJOR \<Rightarrow> Some TOMOYO_PATH1
      | TOMOYO_PATH1_MINOR \<Rightarrow> Some TOMOYO_PATH1
      | TOMOYO_PATH1_TYPE \<Rightarrow> Some TOMOYO_PATH1
      | TOMOYO_PATH1_DEV_MAJOR \<Rightarrow> Some TOMOYO_PATH1
      | TOMOYO_PATH1_DEV_MINOR \<Rightarrow> Some TOMOYO_PATH1
      | TOMOYO_PATH1_PERM \<Rightarrow> Some TOMOYO_PATH1
      | TOMOYO_PATH2_UID \<Rightarrow> Some TOMOYO_PATH2
      | TOMOYO_PATH2_GID \<Rightarrow> Some TOMOYO_PATH2
      | TOMOYO_PATH2_INO \<Rightarrow> Some TOMOYO_PATH2
      | TOMOYO_PATH2_MAJOR \<Rightarrow> Some TOMOYO_PATH2
      | TOMOYO_PATH2_MINOR \<Rightarrow> Some TOMOYO_PATH2
      | TOMOYO_PATH2_TYPE \<Rightarrow> Some TOMOYO_PATH2
      | TOMOYO_PATH2_DEV_MAJOR \<Rightarrow> Some TOMOYO_PATH2
      | TOMOYO_PATH2_DEV_MINOR \<Rightarrow> Some TOMOYO_PATH2
      | TOMOYO_PATH2_PERM \<Rightarrow> Some TOMOYO_PATH2
      | TOMOYO_PATH1_PARENT_UID \<Rightarrow> Some TOMOYO_PATH1_PARENT
      | TOMOYO_PATH1_PARENT_GID \<Rightarrow> Some TOMOYO_PATH1_PARENT
      | TOMOYO_PATH1_PARENT_INO \<Rightarrow> Some TOMOYO_PATH1_PARENT
      | TOMOYO_PATH1_PARENT_PERM \<Rightarrow> Some TOMOYO_PATH1_PARENT
      | TOMOYO_PATH2_PARENT_UID \<Rightarrow> Some TOMOYO_PATH2_PARENT
      | TOMOYO_PATH2_PARENT_GID \<Rightarrow> Some TOMOYO_PATH2_PARENT
      | TOMOYO_PATH2_PARENT_INO \<Rightarrow> Some TOMOYO_PATH2_PARENT
      | TOMOYO_PATH2_PARENT_PERM \<Rightarrow> Some TOMOYO_PATH2_PARENT
      | _ \<Rightarrow> None)"

text \<open>The second inner switch: the value read from the slot.\<close>

definition tomoyo_stat_value ::
  "stat_consts \<Rightarrow> tomoyo_conditions_index \<Rightarrow> tomoyo_mini_stat \<Rightarrow> ulong" where
  "tomoyo_stat_value K index st =
     (case index of
        TOMOYO_PATH1_UID \<Rightarrow> uid st
      | TOMOYO_PATH2_UID \<Rightarrow> uid st
      | TOMOYO_PATH1_PARENT_UID \<Rightarrow> uid st
      | TOMOYO_PATH2_PARENT_UID \<Rightarrow> uid st
      | TOMOYO_PATH1_GID \<Rightarrow> gid st
      | TOMOYO_PATH2_GID \<Rightarrow> gid st
      | TOMOYO_PATH1_PARENT_GID \<Rightarrow> gid st
      | TOMOYO_PATH2_PARENT_GID \<Rightarrow> gid st
      | TOMOYO_PATH1_INO \<Rightarrow> ino st
      | TOMOYO_PATH2_INO \<Rightarrow> ino st
      | TOMOYO_PATH1_PARENT_INO \<Rightarrow> ino st
      | TOMOYO_PATH2_PARENT_INO \<Rightarrow> ino st
      | TOMOYO_PATH1_MAJOR \<Rightarrow> MAJOR K (dev st)
      | TOMOYO_PATH2_MAJOR \<Rightarrow> MAJOR K (dev st)
      | TOMOYO_PATH1_MINOR \<Rightarrow> MINOR K (dev st)
      | TOMOYO_PATH2_MINOR \<Rightarrow> MINOR K (dev st)
      | TOMOYO_PATH1_TYPE \<Rightarrow> mode st AND S_IFMT K
      | TOMOYO_PATH2_TYPE \<Rightarrow> mode st AND S_IFMT K
      | TOMOYO_PATH1_DEV_MAJOR \<Rightarrow> MAJOR K (rdev st)
      | TOMOYO_PATH2_DEV_MAJOR \<Rightarrow> MAJOR K (rdev st)
      | TOMOYO_PATH1_DEV_MINOR \<Rightarrow> MINOR K (rdev st)
      | TOMOYO_PATH2_DEV_MINOR \<Rightarrow> MINOR K (rdev st)
      | TOMOYO_PATH1_PERM \<Rightarrow> mode st AND S_IALLUGO K
      | TOMOYO_PATH2_PERM \<Rightarrow> mode st AND S_IALLUGO K
      | TOMOYO_PATH1_PARENT_PERM \<Rightarrow> mode st AND S_IALLUGO K
      | TOMOYO_PATH2_PARENT_PERM \<Rightarrow> mode st AND S_IALLUGO K
      | _ \<Rightarrow> 0)"

text \<open>
  The block \<open>if (!obj->validate_done) { ... }\<close> of the default branch.
\<close>

definition tomoyo_validate :: "tomoyo_obj_info \<Rightarrow> tomoyo_obj_info" where
  "tomoyo_validate o1 =
     (if validate_done o1 then o1 else (tomoyo_get_attributes o1)\<lparr>validate_done := True\<rparr>)"

text \<open>
  The default branch of the outer switch. \<open>None\<close> as the value is \<open>goto out\<close>; the
  object comes back as the branch leaves it (validated once it is there).
\<close>

definition tomoyo_path_value ::
  "stat_consts \<Rightarrow> tomoyo_obj_info option \<Rightarrow> tomoyo_conditions_index
     \<Rightarrow> tomoyo_obj_info option \<times> ulong option" where
  "tomoyo_path_value K ob index =
     (case ob of
        None \<Rightarrow> (None, None)
      | Some o1 \<Rightarrow>
          (let o2 = tomoyo_validate o1
           in case tomoyo_stat_index index of
                None \<Rightarrow> (Some o2, None)
              | Some stat_index \<Rightarrow>
                  if \<not> stat_valid o2 stat_index then (Some o2, None)
                  else (Some o2, Some (tomoyo_stat_value K index (stat o2 stat_index)))))"

text \<open>The outer switch on \<open>index\<close>: the value of one side of a clause.\<close>

definition tomoyo_value ::
  "stat_consts \<Rightarrow> current_task \<Rightarrow> tomoyo_obj_info option \<Rightarrow> tomoyo_conditions_index
     \<Rightarrow> tomoyo_obj_info option \<times> ulong option" where
  "tomoyo_value K T ob index =
     (case index of
        TOMOYO_TASK_UID \<Rightarrow> (ob, Some (current_uid T))
      | TOMOYO_TASK_EUID \<Rightarrow> (ob, Some (current_euid T))
      | TOMOYO_TASK_SUID \<Rightarrow> (ob, Some (current_suid T))
      | TOMOYO_TASK_FSUID \<Rightarrow> (ob, Some (current_fsuid T))
      | TOMOYO_TASK_GID \<Rightarrow> (ob, Some (current_gid T))
      | TOMOYO_TASK_EGID \<Rightarrow> (ob, Some (current_egid T))
      | TOMOYO_TASK_SGID \<Rightarrow> (ob, Some (current_sgid T))
      | TOMOYO_TASK_FSGID \<Rightarrow> (ob, Some (current_fsgid T))
      | TOMOYO_TASK_PID \<Rightarrow> (ob, Some (tomoyo_sys_getpid T))
      | TOMOYO_TASK_PPID \<Rightarrow> (ob, Some (tomoyo_sys_getppid T))
      | TOMOYO_TYPE_IS_SOCKET \<Rightarrow> (ob, Some (S_IFSOCK K))
      | TOMOYO_TYPE_IS_SYMLINK \<Rightarrow> (ob, Some (S_IFLNK K))
      | TOMOYO_TYPE_IS_FILE \<Rightarrow> (ob, Some (S_IFREG K))
      | TOMOYO_TYPE_IS_BLOCK_DEV \<Rightarrow> (ob, Some (S_IFBLK K))
      | TOMOYO_TYPE_IS_DIRECTORY \<Rightarrow> (ob, Some (S_IFDIR K))
      | TOMOYO_TYPE_IS_CHAR_DEV \<Rightarrow> (ob, Some (S_IFCHR K))
      | TOMOYO_TYPE_IS_FIFO \<Rightarrow> (ob, Some (S_IFIFO K))
      | TOMOYO_MODE_SETUID \<Rightarrow> (ob, Some (S_ISUID K))
      | TOMOYO_MODE_SETGID \<Rightarrow> (ob, Some (S_ISGID K))
      | TOMOYO_MODE_STICKY \<Rightarrow> (ob, Some (S_ISVTX K))
      | TOMOYO_MODE_OWNER_READ \<Rightarrow> (ob, Some (S_IRUSR K))
      | TOMOYO_MODE_OWNER_WRITE \<Rightarrow> (ob, Some (S_IWUSR K))
      | TOMOYO_MODE_OWNER_EXECUTE \<Rightarrow> (ob, Some (S_IXUSR K))
      | TOMOYO_MODE_GROUP_READ \<Rightarrow> (ob, Some (S_IRGRP K))
      | TOMOYO_MODE_GROUP_WRITE \<Rightarrow> (ob, Some (S_IWGRP K))
      | TOMOYO_MODE_GROUP_EXECUTE \<Rightarrow> (ob, Some (S_IXGRP K))
      | TOMOYO_MODE_OTHERS_READ \<Rightarrow> (ob, Some (S_IROTH K))
      | TOMOYO_MODE_OTHERS_WRITE \<Rightarrow> (ob, Some (S_IWOTH K))
      | TOMOYO_MODE_OTHERS_EXECUTE \<Rightarrow> (ob, Some (S_IXOTH K))
      | TOMOYO_NUMBER_UNION \<Rightarrow> (ob, Some 0)
      | _ \<Rightarrow> tomoyo_path_value K ob index)"

text \<open>The switch that sets \<open>is_bitop[j]\<close>.\<close>

definition is_bitop :: "tomoyo_conditions_index \<Rightarrow> bool" where
  "is_bitop index =
     (case index of
        TOMOYO_MODE_SETUID \<Rightarrow> True
      | TOMOYO_MODE_SETGID \<Rightarrow> True
      | TOMOYO_MODE_STICKY \<Rightarrow> True
      | TOMOYO_MODE_OWNER_READ \<Rightarrow> True
      | TOMOYO_MODE_OWNER_WRITE \<Rightarrow> True
      | TOMOYO_MODE_OWNER_EXECUTE \<Rightarrow> True
      | TOMOYO_MODE_GROUP_READ \<Rightarrow> True
      | TOMOYO_MODE_GROUP_WRITE \<Rightarrow> True
      | TOMOYO_MODE_GROUP_EXECUTE \<Rightarrow> True
      | TOMOYO_MODE_OTHERS_READ \<Rightarrow> True
      | TOMOYO_MODE_OTHERS_WRITE \<Rightarrow> True
      | TOMOYO_MODE_OTHERS_EXECUTE \<Rightarrow> True
      | _ \<Rightarrow> False)"

text \<open>The case labels of the two switches on the counterpart of a bit operand.\<close>

definition is_perm :: "tomoyo_conditions_index \<Rightarrow> bool" where
  "is_perm index =
     (case index of
        TOMOYO_PATH1_PERM \<Rightarrow> True
      | TOMOYO_PATH1_PARENT_PERM \<Rightarrow> True
      | TOMOYO_PATH2_PERM \<Rightarrow> True
      | TOMOYO_PATH2_PARENT_PERM \<Rightarrow> True
      | _ \<Rightarrow> False)"

text \<open>
  One round of the loop over the clauses. \<open>Continue\<close> is the source's \<open>continue\<close>,
  with the operand cursor and the object as the round leaves them; \<open>Out\<close> is
  \<open>goto out\<close>; \<open>Overrun\<close> is a read of \<open>numbers_p\<close> behind the last operand of the
  block, which the source does not define.
\<close>

datatype clause_result =
    is_Continue: Continue "tomoyo_number_union list" "tomoyo_obj_info option"
  | is_Out: Out "tomoyo_obj_info option"
  | Overrun

text \<open>
  The second half of a round, from the fetch of the left operand on: \<open>value0\<close> and
  \<open>value1\<close> are what the loop over \<open>j\<close> has left in \<open>min_v[j]\<close> and \<open>max_v[j]\<close>.
\<close>

definition tomoyo_compare ::
  "number_matches_group \<Rightarrow> tomoyo_obj_info option \<Rightarrow> tomoyo_number_union list
     \<Rightarrow> tomoyo_condition_element \<Rightarrow> ulong \<Rightarrow> ulong \<Rightarrow> clause_result" where
  "tomoyo_compare tomoyo_number_matches_group ob2 numbers c value0 value1 =
     (let match = equals c; l = left c; r = right c
      in case (if l = TOMOYO_NUMBER_UNION
               then (case numbers of
                       [] \<Rightarrow> None
                     | ptr # rest \<Rightarrow> Some (values_0 ptr, values_1 ptr, rest))
               else Some (value0, value0, numbers)) of
           None \<Rightarrow> Overrun
         | Some (min_v0, max_v0, numbers1) \<Rightarrow>
            if r = TOMOYO_NUMBER_UNION then
              (case numbers1 of
                 [] \<Rightarrow> Overrun
               | ptr # numbers2 \<Rightarrow>
                  (case group ptr of
                     Some g \<Rightarrow>
                       if tomoyo_number_matches_group min_v0 max_v0 g = match
                       then Continue numbers2 ob2 else Out ob2
                   | None \<Rightarrow>
                       if (min_v0 \<le> values_1 ptr \<and> max_v0 \<ge> values_0 ptr) = match
                       then Continue numbers2 ob2 else Out ob2))
            else if is_bitop l \<and> is_bitop r then Out ob2
            else if is_bitop l then
              (if is_perm r \<and> ((max_v0 AND value1) = 0) = (\<not> match)
               then Continue numbers1 ob2 else Out ob2)
            else if is_bitop r then
              (if is_perm l \<and> ((max_v0 AND value1) = 0) = (\<not> match)
               then Continue numbers1 ob2 else Out ob2)
            else if (min_v0 \<le> value1 \<and> max_v0 \<ge> value1) = match
              then Continue numbers1 ob2 else Out ob2)"

text \<open>A whole round: the loop over \<open>j\<close> (left side, then right side), then the comparison.\<close>

definition tomoyo_condition_clause ::
  "stat_consts \<Rightarrow> current_task \<Rightarrow> number_matches_group \<Rightarrow> tomoyo_obj_info option
     \<Rightarrow> tomoyo_number_union list \<Rightarrow> tomoyo_condition_element \<Rightarrow> clause_result" where
  "tomoyo_condition_clause K T G ob numbers c =
     (case tomoyo_value K T ob (left c) of
        (ob1, None) \<Rightarrow> Out ob1
      | (ob1, Some value0) \<Rightarrow>
          (case tomoyo_value K T ob1 (right c) of
             (ob2, None) \<Rightarrow> Out ob2
           | (ob2, Some value1) \<Rightarrow> tomoyo_compare G ob2 numbers c value0 value1))"

text \<open>
  The loop \<open>for (i = 0; i < condc; i++)\<close>. The result is the returned truth value, or
  \<open>None\<close> where a cursor leaves the block, and the object as the call leaves it.
\<close>

fun tomoyo_condition_loop ::
  "stat_consts \<Rightarrow> current_task \<Rightarrow> number_matches_group \<Rightarrow> nat
     \<Rightarrow> tomoyo_condition_element list \<Rightarrow> tomoyo_number_union list
     \<Rightarrow> tomoyo_obj_info option \<Rightarrow> bool option \<times> tomoyo_obj_info option" where
  "tomoyo_condition_loop K T G 0 cs numbers ob = (Some True, ob)"
| "tomoyo_condition_loop K T G (Suc n) [] numbers ob = (None, ob)"
| "tomoyo_condition_loop K T G (Suc n) (c # cs) numbers ob =
     (case tomoyo_condition_clause K T G ob numbers c of
        Continue numbers' ob' \<Rightarrow> tomoyo_condition_loop K T G n cs numbers' ob'
      | Out ob' \<Rightarrow> (Some False, ob')
      | Overrun \<Rightarrow> (None, ob))"

definition tomoyo_condition ::
  "stat_consts \<Rightarrow> current_task \<Rightarrow> number_matches_group \<Rightarrow> tomoyo_request_info
     \<Rightarrow> tomoyo_condition option \<Rightarrow> bool option \<times> tomoyo_obj_info option" where
  "tomoyo_condition K T G r cond =
     (case cond of
        None \<Rightarrow> (Some True, obj r)
      | Some cnd \<Rightarrow>
          tomoyo_condition_loop K T G (unat (condc cnd)) (condp cnd) (numbers_p cnd) (obj r))"


text \<open>
  Notions the statements below use. A clause needs one operand of the block for each side
  that is \<open>TOMOYO_NUMBER_UNION\<close>; a path attribute is unavailable to a request that has
  no object, or whose object, once validated, has not marked the attribute's slot valid.
\<close>

definition operands_of :: "tomoyo_condition_element \<Rightarrow> nat" where
  "operands_of c =
     (if left c = TOMOYO_NUMBER_UNION then 1 else 0) +
     (if right c = TOMOYO_NUMBER_UNION then 1 else 0)"

definition operands_before :: "tomoyo_condition_element list \<Rightarrow> nat \<Rightarrow> nat" where
  "operands_before cs i = sum_list (map operands_of (take i cs))"

definition unavailable :: "tomoyo_obj_info option \<Rightarrow> tomoyo_conditions_index \<Rightarrow> bool" where
  "unavailable ob index =
     (case tomoyo_stat_index index of
        None \<Rightarrow> False
      | Some stat_index \<Rightarrow>
          (case ob of
             None \<Rightarrow> True
           | Some o1 \<Rightarrow> \<not> stat_valid (tomoyo_validate o1) stat_index))"

subsection \<open>Concrete inputs\<close>

text \<open>
  The values linux/stat.h and linux/kdev_t.h give the constants, a task, and an object
  that has a first path without an inode behind it and no second path.
\<close>

definition linux_stat_consts :: stat_consts where
  "linux_stat_consts =
     \<lparr>S_IFSOCK = 0xC000, S_IFLNK = 0xA000, S_IFREG = 0x8000, S_IFBLK = 0x6000,
      S_IFDIR = 0x4000, S_IFCHR = 0x2000, S_IFIFO = 0x1000,
      S_ISUID = 0x800, S_ISGID = 0x400, S_ISVTX = 0x200,
      S_IRUSR = 0x100, S_IWUSR = 0x80, S_IXUSR = 0x40,
      S_IRGRP = 0x20, S_IWGRP = 0x10, S_IXGRP = 0x8,
      S_IROTH = 0x4, S_IWOTH = 0x2, S_IXOTH = 0x1,
      S_IFMT = 0xF000, S_IALLUGO = 0xFFF,
      MAJOR = (\<lambda>d. drop_bit 20 d), MINOR = (\<lambda>d. d AND 0xFFFFF)\<rparr>"

definition task_of_uid :: "ulong \<Rightarrow> current_task" where
  "task_of_uid u =
     \<lparr>current_uid = u, current_euid = u, current_suid = u, current_fsuid = u,
      current_gid = 100, current_egid = 100, current_sgid = 100, current_fsgid = 100,
      tomoyo_sys_getpid = 4321, tomoyo_sys_getppid = 1\<rparr>"

definition zero_stat :: tomoyo_mini_stat where
  "zero_stat = \<lparr>uid = 0, gid = 0, ino = 0, mode = 0, dev = 0, rdev = 0\<rparr>"

definition file_inode :: inode where
  "file_inode = \<lparr>i_uid = 1000, i_gid = 100, i_ino = 77, i_mode = 0x81ED,
                  s_dev = 0x800001, i_rdev = 0\<rparr>"

definition obj_of_path1 :: "dentry option \<Rightarrow> tomoyo_obj_info" where
  "obj_of_path1 d =
     \<lparr>validate_done = False, stat_valid = (\<lambda>i. False), path1_dentry = d,
      path2_dentry = None, stat = (\<lambda>i. zero_stat)\<rparr>"

text \<open>
  A block is complete when its two arrays are as long as its counters say and hold one
  operand for each literal side of its clauses.
\<close>

definition block_complete :: "tomoyo_condition \<Rightarrow> bool" where
  "block_complete c \<longleftrightarrow>
     length (condp c) = unat (condc c) \<and> length (numbers_p c) = unat (numbers_count c) \<and>
     sum_list (map operands_of (condp c)) = length (numbers_p c)"

section \<open>Interning and parsing\<close>

subsection \<open>What the code takes from outside\<close>

text \<open>
  The layout of the structures is declared in common.h: the three sizes the code asks
  for with \<open>sizeof\<close>, and the bytes an element and an operand occupy in the block.
\<close>

record layout =
  sizeof_condition :: u32
  sizeof_condition_element :: u32
  sizeof_number_union :: u32
  element_bytes :: "tomoyo_condition_element \<Rightarrow> u8 list"
  number_union_bytes :: "tomoyo_number_union \<Rightarrow> u8 list"

text \<open>
  The collaborators of one call: the keyword table (in the order of its indices, each
  keyword with the enumerator it stands at), the literal parser applied to a word, the
  result of \<open>kzalloc\<close> for a size, the result of \<open>mutex_lock_interruptible\<close> and the
  quota check. Keywords are C strings.
\<close>

record collaborators =
  tomoyo_condition_keyword :: "(tomoyo_conditions_index \<times> string) list"
  tomoyo_parse_number_union :: "string \<Rightarrow> tomoyo_number_union option"
  kzalloc :: "u32 \<Rightarrow> addr option"
  mutex_lock_interruptible :: int
  tomoyo_memory_ok :: "tomoyo_condition \<Rightarrow> bool"

text \<open>
  \<open>tomoyo_del_condition\<close> and \<open>kfree\<close> act on memory outside this model; a call
  reports them in the order it makes them.
\<close>

datatype release = Tomoyo_del_condition addr | Kfree addr

text \<open>
  What a call leaves behind: the pointer it returns, the list \<open>tomoyo_condition_list\<close>
  (each node with its address, head first) and the releases.
\<close>

record effect =
  returned :: "addr option"
  condition_list :: "(addr \<times> tomoyo_condition) list"
  released :: "release list"

subsection \<open>tomoyo_same_condition\<close>

text \<open>The bytes behind the header of a block: the clause array, then the operand array.\<close>

definition region :: "layout \<Rightarrow> tomoyo_condition \<Rightarrow> u8 list" where
  "region L a =
     concat (map (element_bytes L) (condp a)) @ concat (map (number_union_bytes L) (numbers_p a))"

text \<open>\<open>memcmp(a, b, n) == 0\<close>, for two blocks of at least \<open>n\<close> bytes.\<close>

definition memcmp0 :: "u8 list \<Rightarrow> u8 list \<Rightarrow> nat \<Rightarrow> bool" where
  "memcmp0 a b n \<longleftrightarrow> take n a = take n b"

definition tomoyo_same_condition :: "layout \<Rightarrow> tomoyo_condition \<Rightarrow> tomoyo_condition \<Rightarrow> bool" where
  "tomoyo_same_condition L a b \<longleftrightarrow>
     size_c a = size_c b \<and> condc a = condc b \<and>
     numbers_count a = numbers_count b \<and>
     memcmp0 (region L a) (region L b) (unat (size_c a - sizeof_condition L))"

text \<open>A block as \<open>kzalloc\<close> hands it out and the parser fills it: \<open>size\<close> bytes in all.\<close>

definition block_ok :: "layout \<Rightarrow> tomoyo_condition \<Rightarrow> bool" where
  "block_ok L a \<longleftrightarrow> unat (size_c a) = unat (sizeof_condition L) + length (region L a)"

subsection \<open>tomoyo_commit_condition\<close>

text \<open>
  The walk over the list: at the first node that is the same as the entry, its \<open>users\<close>
  goes up by one and the walk ends with that node as \<open>ptr\<close>.
\<close>

fun tomoyo_share ::
  "layout \<Rightarrow> (addr \<times> tomoyo_condition) list \<Rightarrow> tomoyo_condition
     \<Rightarrow> ((addr \<times> tomoyo_condition) list \<times> addr) option" where
  "tomoyo_share L [] e = None"
| "tomoyo_share L ((ptr, a) # rest) e =
     (if \<not> tomoyo_same_condition L a e
      then map_option (\<lambda>(rest', p). ((ptr, a) # rest', p)) (tomoyo_share L rest e)
      else Some ((ptr, a\<lparr>users := users a + 1\<rparr>) # rest, ptr))"

definition tomoyo_commit_condition ::
  "layout \<Rightarrow> collaborators \<Rightarrow> (addr \<times> tomoyo_condition) list \<Rightarrow> addr \<Rightarrow> tomoyo_condition
     \<Rightarrow> effect" where
  "tomoyo_commit_condition L X lst entry e =
     (if mutex_lock_interruptible X \<noteq> 0
      then \<lparr>returned = None, condition_list = lst,
            released = [Tomoyo_del_condition entry, Kfree entry]\<rparr>
      else case tomoyo_share L lst e of
             Some (lst', ptr) \<Rightarrow>
               \<lparr>returned = Some ptr, condition_list = lst',
                released = [Tomoyo_del_condition entry, Kfree entry]\<rparr>
           | None \<Rightarrow>
               if tomoyo_memory_ok X e
               then \<lparr>returned = Some entry,
                     condition_list = (entry, e\<lparr>users := 1\<rparr>) # lst, released = []\<rparr>
               else \<lparr>returned = None, condition_list = lst,
                     released = [Tomoyo_del_condition entry, Kfree entry]\<rparr>)"

subsection \<open>tomoyo_get_condition\<close>

text \<open>
  The buffer \<open>param->data\<close> is the list of its bytes up to the terminating NUL, which
  is the byte read at the index \<open>strlen\<close>; \<open>pos\<close> is an index into it, and the index
  \<open>strlen\<close> also stands for the empty string literal the code moves \<open>pos\<close> to after the
  last clause.
\<close>

definition NUL :: char where
  "NUL = CHR 0x00"

definition byte_at :: "string \<Rightarrow> nat \<Rightarrow> char" where
  "byte_at buf i = (if i < length buf then buf ! i else NUL)"

fun strchr_list :: "string \<Rightarrow> char \<Rightarrow> nat option" where
  "strchr_list [] ch = None"
| "strchr_list (x # xs) ch =
     (if x = ch then Some 0 else if x = NUL then None
      else map_option Suc (strchr_list xs ch))"

definition strchr :: "string \<Rightarrow> nat \<Rightarrow> char \<Rightarrow> nat option" where
  "strchr buf p ch = map_option (\<lambda>i. p + i) (strchr_list (drop p buf) ch)"

text \<open>The C string that starts at an index of the buffer.\<close>

definition c_string :: "string \<Rightarrow> nat \<Rightarrow> string" where
  "c_string buf p = takeWhile (\<lambda>ch. ch \<noteq> NUL) (drop p buf)"

fun tomoyo_condition_type ::
  "(tomoyo_conditions_index \<times> string) list \<Rightarrow> string \<Rightarrow> tomoyo_conditions_index" where
  "tomoyo_condition_type [] word = TOMOYO_MAX_CONDITION_KEYWORD"
| "tomoyo_condition_type ((i, keyword) # table) word =
     (if word = keyword then i else tomoyo_condition_type table word)"

text \<open>
  The state of the loop: the buffer, \<open>pos\<close>, the two counters of \<open>e\<close>, and the block
  \<open>entry\<close>, which holds the elements and operands written so far. \<open>condp\<close> and
  \<open>numbers_p\<close> are \<open>NULL\<close> exactly as long as \<open>entry\<close> is.
\<close>

record parse_state =
  data :: string
  pos :: nat
  e_condc :: u16
  e_numbers_count :: u16
  entry_block :: "tomoyo_condition option"

datatype parse_error = To_out | Past_block

text \<open>
  The first part of a round: the clause is cut off at the next space and split at its
  first \<open>=\<close>. The result is the buffer, the new \<open>pos\<close>, \<open>right_word\<close> and \<open>is_not\<close>;
  \<open>None\<close> is \<open>goto out\<close>.
\<close>

definition tomoyo_split_clause :: "string \<Rightarrow> nat \<Rightarrow> (string \<times> nat \<times> nat \<times> bool) option" where
  "tomoyo_split_clause buf left_word =
     (let (buf1, pos1) =
            (case strchr buf left_word (CHR '' '') of
               Some cp \<Rightarrow> (buf[cp := NUL], cp + 1)
             | None \<Rightarrow> (buf, length buf))
      in case strchr buf1 left_word (CHR ''='') of
           None \<Rightarrow> None
         | Some right_word \<Rightarrow>
             if right_word = left_word then None
             else if byte_at buf1 (right_word - 1) = CHR ''!''
               then Some (buf1[right_word - 1 := NUL], pos1, right_word + 1, True)
             else if byte_at buf1 (right_word + 1) \<noteq> CHR ''=''
               then Some (buf1[right_word := NUL], pos1, right_word + 1, False)
             else None)"

text \<open>
  One side of a clause. In the first pass a word that is no keyword is counted. In the
  second pass it is parsed into the next operand of the block; a left word that starts
  with \<open>@\<close> goes to \<open>out\<close> before the parser is called. \<open>Past_block\<close> is a write behind
  the operands the block was allocated for. The assignments to \<open>param->data\<close> hand the
  word to the literal parser; the loop does not read \<open>param->data\<close> again.
\<close>

definition tomoyo_parse_side ::
  "collaborators \<Rightarrow> bool \<Rightarrow> string \<Rightarrow> parse_state
     \<Rightarrow> parse_error + (tomoyo_conditions_index \<times> parse_state)" where
  "tomoyo_parse_side X is_left word st =
     (let t = tomoyo_condition_type (tomoyo_condition_keyword X) word
      in if t \<noteq> TOMOYO_MAX_CONDITION_KEYWORD then Inr (t, st)
         else case entry_block st of
                None \<Rightarrow> Inr (t, st\<lparr>e_numbers_count := e_numbers_count st + 1\<rparr>)
              | Some en \<Rightarrow>
                  if is_left \<and> (case word of [] \<Rightarrow> False | ch # _ \<Rightarrow> ch = CHR ''@'')
                  then Inl To_out
                  else if \<not> length (numbers_p en) < unat (numbers_count en)
                  then Inl Past_block
                  else case tomoyo_parse_number_union X word of
                         None \<Rightarrow> Inl To_out
                       | Some n \<Rightarrow>
                           Inr (TOMOYO_NUMBER_UNION,
                                st\<lparr>e_numbers_count := e_numbers_count st - 1,
                                   entry_block := Some (en\<lparr>numbers_p := numbers_p en @ [n]\<rparr>)\<rparr>))"

text \<open>One round of the loop \<open>while (1)\<close>, after the test of \<open>*left_word\<close>.\<close>

definition tomoyo_get_condition_step ::
  "collaborators \<Rightarrow> parse_state \<Rightarrow> parse_error + parse_state" where
  "tomoyo_get_condition_step X st =
     (case tomoyo_split_clause (data st) (pos st) of
        None \<Rightarrow> Inl To_out
      | Some (buf, pos1, right_word, is_not) \<Rightarrow>
          (case tomoyo_parse_side X True (c_string buf (pos st)) (st\<lparr>data := buf, pos := pos1\<rparr>) of
             Inl err \<Rightarrow> Inl err
           | Inr (l, st1) \<Rightarrow>
               (case tomoyo_parse_side X False (c_string buf right_word)
                       (st1\<lparr>e_condc := (if entry_block st1 = None then e_condc st1 + 1
                                          else e_condc st1 - 1)\<rparr>) of
                  Inl err \<Rightarrow> Inl err
                | Inr (r, st2) \<Rightarrow>
                    (case entry_block st2 of
                       None \<Rightarrow> Inr st2
                     | Some en \<Rightarrow>
                         if \<not> length (condp en) < unat (condc en) then Inl Past_block
                         else Inr (st2\<lparr>entry_block :=
                                    Some (en\<lparr>condp := condp en @
                                               [\<lparr>left = l, right = r, equals = \<not> is_not\<rparr>]\<rparr>)\<rparr>)))))"

datatype loop_result = Done parse_state | Goto_out | Write_past_block

function tomoyo_get_condition_loop :: "collaborators \<Rightarrow> parse_state \<Rightarrow> loop_result" where
  "tomoyo_get_condition_loop X st =
     (if byte_at (data st) (pos st) = NUL then Done st
      else case tomoyo_get_condition_step X st of
             Inl To_out \<Rightarrow> Goto_out
           | Inl Past_block \<Rightarrow> Write_past_block
           | Inr st' \<Rightarrow> tomoyo_get_condition_loop X st')"
  by pat_completeness auto
termination
proof (relation "measure (\<lambda>(X, st). length (data st) - pos st)")
  show "wf (measure (\<lambda>(X, st). length (data st) - pos st))" by simp
next
  fix X :: collaborators and st st' :: parse_state
  assume nz: "byte_at (data st) (pos st) \<noteq> NUL"
    and step: "tomoyo_get_condition_step X st = Inr st'"
  from nz have lt: "pos st < length (data st)"
    by (simp add: byte_at_def split: if_splits)
  have idx: "\<And>xs ch i. strchr_list xs ch = Some i \<Longrightarrow> i < length xs"
  proof -
    fix xs :: string and ch i
    show "strchr_list xs ch = Some i \<Longrightarrow> i < length xs"
      by (induction xs arbitrary: i) (auto split: if_splits)
  qed
  have sp: "\<And>buf p buf1 pos1 rw n. p < length buf \<Longrightarrow>
              tomoyo_split_clause buf p = Some (buf1, pos1, rw, n) \<Longrightarrow>
              length buf1 = length buf \<and> p < pos1 \<and> pos1 \<le> length buf"
  proof -
    fix buf :: string and p buf1 pos1 rw n
    assume p: "p < length buf" and s: "tomoyo_split_clause buf p = Some (buf1, pos1, rw, n)"
    show "length buf1 = length buf \<and> p < pos1 \<and> pos1 \<le> length buf"
    proof (cases "strchr buf p (CHR '' '')")
      case None
      with s p show ?thesis
        by (auto simp: tomoyo_split_clause_def split: option.splits if_splits)
    next
      case (Some cp)
      then have "p \<le> cp \<and> cp < length buf"
        using idx [of "drop p buf" "CHR '' ''"] by (auto simp: strchr_def)
      with s Some show ?thesis
        by (auto simp: tomoyo_split_clause_def split: option.splits if_splits)
    qed
  qed
  have side: "\<And>b w s i s'. tomoyo_parse_side X b w s = Inr (i, s') \<Longrightarrow>
                data s' = data s \<and> pos s' = pos s"
    by (auto simp: tomoyo_parse_side_def Let_def split: if_splits option.splits)
  obtain buf pos1 rw n where s: "tomoyo_split_clause (data st) (pos st) = Some (buf, pos1, rw, n)"
    using step by (auto simp: tomoyo_get_condition_step_def split: option.splits)
  from sp [OF lt s] have a: "length buf = length (data st)" "pos st < pos1" "pos1 \<le> length (data st)"
    by simp_all
  have "data st' = buf \<and> pos st' = pos1"
    using step s
    by (auto simp: tomoyo_get_condition_step_def split: sum.splits option.splits if_splits
             dest!: side)
  with a lt show "((X, st'), (X, st)) \<in> measure (\<lambda>(X, st). length (data st) - pos st)"
    by simp
qed

text \<open>
  What holds between two rounds of the second pass: the counters of \<open>e\<close> and the
  elements and operands written so far add up to the counters of the block, nothing is
  written behind the block, and each literal side written so far has its operand.
\<close>

definition second_inv :: "parse_state \<Rightarrow> bool" where
  "second_inv st \<longleftrightarrow>
     (\<exists>en. entry_block st = Some en \<and>
        e_condc st + of_nat (length (condp en)) = condc en \<and>
        e_numbers_count st + of_nat (length (numbers_p en)) = numbers_count en \<and>
        length (condp en) \<le> unat (condc en) \<and>
        length (numbers_p en) \<le> unat (numbers_count en) \<and>
        sum_list (map operands_of (condp en)) = length (numbers_p en))"

text \<open>
  The loop that restores the buffer, as a walk over its bytes; the byte behind the
  last one is the terminating NUL.
\<close>

fun tomoyo_restore :: "bool \<Rightarrow> string \<Rightarrow> string" where
  "tomoyo_restore flag [] = []"
| "tomoyo_restore flag (ch # rest) =
     (if ch \<noteq> NUL then ch # tomoyo_restore flag rest
      else (if flag then CHR '' ''
            else if (case rest of [] \<Rightarrow> NUL | nxt # _ \<Rightarrow> nxt) = CHR ''='' then CHR ''!''
            else CHR ''='') # tomoyo_restore (\<not> flag) rest)"

text \<open>
  The outcome of a call: it returns, or it stops at \<open>BUG_ON\<close>, or it writes behind the
  block it allocated.
\<close>

datatype outcome = Returns effect | BUG | Writes_past_block

definition first_pass :: "string \<Rightarrow> parse_state" where
  "first_pass s = \<lparr>data = s, pos = 0, e_condc = 0, e_numbers_count = 0, entry_block = None\<rparr>"

definition tomoyo_get_condition ::
  "layout \<Rightarrow> collaborators \<Rightarrow> (addr \<times> tomoyo_condition) list \<Rightarrow> string \<Rightarrow> outcome" where
  "tomoyo_get_condition L X lst s =
     (case tomoyo_get_condition_loop X (first_pass s) of
        Goto_out \<Rightarrow> Returns \<lparr>returned = None, condition_list = lst, released = []\<rparr>
      | Write_past_block \<Rightarrow> Writes_past_block
      | Done st1 \<Rightarrow>
          (let e_size = sizeof_condition L
                        + ucast (e_condc st1) * sizeof_condition_element L
                        + ucast (e_numbers_count st1) * sizeof_number_union L
           in case kzalloc X e_size of
                None \<Rightarrow> Returns \<lparr>returned = None, condition_list = lst, released = []\<rparr>
              | Some entry \<Rightarrow>
                  (case tomoyo_get_condition_loop X
                          (st1\<lparr>data := tomoyo_restore False (data st1), pos := 0,
                               entry_block :=
                                 Some \<lparr>users = 0, size_c = e_size, condc = e_condc st1,
                                       numbers_count = e_numbers_count st1,
                                       condp = [], numbers_p = []\<rparr>\<rparr>) of
                     Goto_out \<Rightarrow>
                       Returns \<lparr>returned = None, condition_list = lst,
                                released = [Tomoyo_del_condition entry, Kfree entry]\<rparr>
                   | Write_past_block \<Rightarrow> Writes_past_block
                   | Done st2 \<Rightarrow>
                       (case entry_block st2 of
                          None \<Rightarrow> BUG
                        | Some e \<Rightarrow>
                            if (e_numbers_count st2 OR e_condc st2) \<noteq> 0 then BUG
                            else Returns (tomoyo_commit_condition L X lst entry e)))))"

subsection \<open>Concrete inputs of the parser and the store\<close>

text \<open>
  A layout for a 32-bit machine: a header of 20 bytes, an element of three bytes (the two
  indices as they are numbered in the list below, and \<open>equals\<close>), an operand of 16 bytes
  (the two values and the group pointer, least significant byte first, and four more
  bytes that are zero here).
\<close>

definition all_indices :: "tomoyo_conditions_index list" where
  "all_indices =
     [TOMOYO_TASK_UID, TOMOYO_TASK_EUID, TOMOYO_TASK_SUID, TOMOYO_TASK_FSUID,
      TOMOYO_TASK_GID, TOMOYO_TASK_EGID, TOMOYO_TASK_SGID, TOMOYO_TASK_FSGID,
      TOMOYO_TASK_PID, TOMOYO_TASK_PPID,
      TOMOYO_TYPE_IS_SOCKET, TOMOYO_TYPE_IS_SYMLINK, TOMOYO_TYPE_IS_FILE,
      TOMOYO_TYPE_IS_BLOCK_DEV, TOMOYO_TYPE_IS_DIRECTORY, TOMOYO_TYPE_IS_CHAR_DEV,
      TOMOYO_TYPE_IS_FIFO,
      TOMOYO_MODE_SETUID, TOMOYO_MODE_SETGID, TOMOYO_MODE_STICKY,
      TOMOYO_MODE_OWNER_READ, TOMOYO_MODE_OWNER_WRITE, TOMOYO_MODE_OWNER_EXECUTE,
      TOMOYO_MODE_GROUP_READ, TOMOYO_MODE_GROUP_WRITE, TOMOYO_MODE_GROUP_EXECUTE,
      TOMOYO_MODE_OTHERS_READ, TOMOYO_MODE_OTHERS_WRITE, TOMOYO_MODE_OTHERS_EXECUTE,
      TOMOYO_PATH1_UID, TOMOYO_PATH1_GID, TOMOYO_PATH1_INO, TOMOYO_PATH1_MAJOR,
      TOMOYO_PATH1_MINOR, TOMOYO_PATH1_PERM, TOMOYO_PATH1_TYPE,
      TOMOYO_PATH1_DEV_MAJOR, TOMOYO_PATH1_DEV_MINOR,
      TOMOYO_PATH2_UID, TOMOYO_PATH2_GID, TOMOYO_PATH2_INO, TOMOYO_PATH2_MAJOR,
      TOMOYO_PATH2_MINOR, TOMOYO_PATH2_PERM, TOMOYO_PATH2_TYPE,
      TOMOYO_PATH2_DEV_MAJOR, TOMOYO_PATH2_DEV_MINOR,
      TOMOYO_PATH1_PARENT_UID, TOMOYO_PATH1_PARENT_GID, TOMOYO_PATH1_PARENT_INO,
      TOMOYO_PATH1_PARENT_PERM,
      TOMOYO_PATH2_PARENT_UID, TOMOYO_PATH2_PARENT_GID, TOMOYO_PATH2_PARENT_INO,
      TOMOYO_PATH2_PARENT_PERM,
      TOMOYO_MAX_CONDITION_KEYWORD, TOMOYO_NUMBER_UNION]"

definition index_byte :: "tomoyo_conditions_index \<Rightarrow> u8" where
  "index_byte i = of_nat (length (takeWhile (\<lambda>j. j \<noteq> i) all_indices))"

definition word_bytes :: "u32 \<Rightarrow> u8 list" where
  "word_bytes w = [ucast w, ucast (drop_bit 8 w), ucast (drop_bit 16 w), ucast (drop_bit 24 w)]"

definition arm_layout :: layout where
  "arm_layout =
     \<lparr>sizeof_condition = 20, sizeof_condition_element = 3, sizeof_number_union = 16,
      element_bytes = (\<lambda>c. [index_byte (left c), index_byte (right c),
                             if equals c then 1 else 0]),
      number_union_bytes = (\<lambda>n. word_bytes (values_0 n) @ word_bytes (values_1 n) @
                                 word_bytes (case group n of None \<Rightarrow> 0 | Some g \<Rightarrow> of_nat g) @
                                 [0, 0, 0, 0])\<rparr>"

text \<open>
  Collaborators for the expression the specification gives: a table with the two keywords
  it names, a literal parser that knows the number 0, an allocator that hands out the
  address 64, a lock that is taken, and a quota that admits every block.
\<close>

definition spec_collaborators :: collaborators where
  "spec_collaborators =
     \<lparr>tomoyo_condition_keyword =
        [(TOMOYO_TASK_UID, ''task.uid''), (TOMOYO_PATH1_UID, ''path1.uid'')],
      tomoyo_parse_number_union =
        (\<lambda>w. if w = ''0'' then Some \<lparr>values_0 = 0, values_1 = 0, group = None\<rparr> else None),
      kzalloc = (\<lambda>n. Some 64),
      mutex_lock_interruptible = 0,
      tomoyo_memory_ok = (\<lambda>e. True)\<rparr>"

text \<open>The block the expression of the specification compiles to, with a given count of users.\<close>

definition example_block :: "u32 \<Rightarrow> tomoyo_condition" where
  "example_block u =
     \<lparr>users = u, size_c = 42, condc = 2, numbers_count = 1,
      condp = [\<lparr>left = TOMOYO_TASK_UID, right = TOMOYO_NUMBER_UNION, equals = True\<rparr>,
               \<lparr>left = TOMOYO_PATH1_UID, right = TOMOYO_TASK_UID, equals = False\<rparr>],
      numbers_p = [\<lparr>values_0 = 0, values_1 = 0, group = None\<rparr>]\<rparr>"


section \<open>Properties of the evaluator\<close>

subsection \<open>Validation and the value of one side\<close>

lemma tomoyo_validate_idem: "tomoyo_validate (tomoyo_validate ob) = tomoyo_validate ob"
  by (simp add: tomoyo_validate_def)

lemma map_validate_idem:
  "map_option tomoyo_validate (map_option tomoyo_validate ob) = map_option tomoyo_validate ob"
  by (cases ob) (simp_all add: tomoyo_validate_idem)

lemma tomoyo_path_value_fst:
  "fst (tomoyo_path_value K ob i) = map_option tomoyo_validate ob"
  by (simp add: tomoyo_path_value_def Let_def split: option.splits)

lemma tomoyo_path_value_snd_validate:
  "snd (tomoyo_path_value K (map_option tomoyo_validate ob) i) = snd (tomoyo_path_value K ob i)"
  by (simp add: tomoyo_path_value_def Let_def tomoyo_validate_idem split: option.splits)

lemma tomoyo_value_fst:
  "fst (tomoyo_value K T ob i) = ob \<or> fst (tomoyo_value K T ob i) = map_option tomoyo_validate ob"
  by (cases i) (simp_all add: tomoyo_value_def tomoyo_path_value_fst)

lemma tomoyo_value_snd_validate:
  "snd (tomoyo_value K T (map_option tomoyo_validate ob) i) = snd (tomoyo_value K T ob i)"
  by (cases i) (simp_all add: tomoyo_value_def tomoyo_path_value_snd_validate)

lemma tomoyo_value_snd_after:
  "snd (tomoyo_value K T (fst (tomoyo_value K T ob j)) i) = snd (tomoyo_value K T ob i)"
  using tomoyo_value_fst [of K T ob j] by (auto simp: tomoyo_value_snd_validate)

lemma tomoyo_value_number_union: "tomoyo_value K T ob TOMOYO_NUMBER_UNION = (ob, Some 0)"
  by (simp add: tomoyo_value_def)

lemma unavailable_value:
  "unavailable ob i \<Longrightarrow> snd (tomoyo_value K T ob i) = None"
  by (cases i)
     (auto simp: unavailable_def tomoyo_value_def tomoyo_stat_index_def tomoyo_path_value_def
                 Let_def split: option.splits)

lemma clause_eq:
  assumes "tomoyo_value K T ob (left c) = (ob1, v0)"
      and "tomoyo_value K T ob1 (right c) = (ob2, v1)"
  shows "tomoyo_condition_clause K T G ob numbers c =
           (case v0 of None \<Rightarrow> Out ob1
            | Some value0 \<Rightarrow>
                (case v1 of None \<Rightarrow> Out ob2
                 | Some value1 \<Rightarrow> tomoyo_compare G ob2 numbers c value0 value1))"
  using assms by (simp add: tomoyo_condition_clause_def split: option.splits)

lemma compare_cases:
  "tomoyo_compare G ob2 numbers c v0 v1 = Overrun \<or>
   tomoyo_compare G ob2 numbers c v0 v1 = Out ob2 \<or>
   tomoyo_compare G ob2 numbers c v0 v1 = Continue (drop (operands_of c) numbers) ob2"
  by (cases "left c = TOMOYO_NUMBER_UNION"; cases "right c = TOMOYO_NUMBER_UNION";
      cases numbers; cases "tl numbers")
     (simp_all add: tomoyo_compare_def operands_of_def Let_def split: option.splits)

lemma compare_continue_obj:
  "is_Continue (tomoyo_compare G ob2 numbers c v0 v1) =
   is_Continue (tomoyo_compare G ob2' numbers c v0 v1)"
  by (cases "left c = TOMOYO_NUMBER_UNION"; cases "right c = TOMOYO_NUMBER_UNION";
      cases numbers; cases "tl numbers")
     (simp_all add: tomoyo_compare_def Let_def split: option.splits)

lemma compare_no_overrun:
  "operands_of c \<le> length numbers \<Longrightarrow> tomoyo_compare G ob2 numbers c v0 v1 \<noteq> Overrun"
  by (cases "left c = TOMOYO_NUMBER_UNION"; cases "right c = TOMOYO_NUMBER_UNION";
      cases numbers; cases "tl numbers")
     (simp_all add: tomoyo_compare_def operands_of_def Let_def split: option.splits)

lemma clause_out_left:
  "snd (tomoyo_value K T ob (left c)) = None \<Longrightarrow>
     is_Out (tomoyo_condition_clause K T G ob numbers c)"
  by (cases "tomoyo_value K T ob (left c)") (simp add: tomoyo_condition_clause_def)

lemma clause_out_right:
  assumes "snd (tomoyo_value K T ob (right c)) = None"
  shows "is_Out (tomoyo_condition_clause K T G ob numbers c)"
proof -
  obtain ob1 v0 where l: "tomoyo_value K T ob (left c) = (ob1, v0)"
    by (cases "tomoyo_value K T ob (left c)")
  obtain ob2 v1 where r: "tomoyo_value K T ob1 (right c) = (ob2, v1)"
    by (cases "tomoyo_value K T ob1 (right c)")
  have "v1 = None"
    using tomoyo_value_snd_after [of K T ob "left c" "right c"] l r assms by simp
  then show ?thesis by (simp add: clause_eq [OF l r] split: option.splits)
qed

lemma clause_unavailable:
  assumes "unavailable ob (left c) \<or> unavailable ob (right c)"
  shows "is_Out (tomoyo_condition_clause K T G ob numbers c)"
proof -
  from assms have "snd (tomoyo_value K T ob (left c)) = None \<or>
                   snd (tomoyo_value K T ob (right c)) = None"
    by (auto simp: unavailable_value)
  then show ?thesis
    by (auto simp: clause_out_left clause_out_right)
qed

lemma clause_validate:
  "is_Continue (tomoyo_condition_clause K T G (map_option tomoyo_validate ob) numbers c) =
   is_Continue (tomoyo_condition_clause K T G ob numbers c)"
proof -
  obtain ob1 v0 where l: "tomoyo_value K T ob (left c) = (ob1, v0)"
    by (cases "tomoyo_value K T ob (left c)")
  obtain ob2 v1 where r: "tomoyo_value K T ob1 (right c) = (ob2, v1)"
    by (cases "tomoyo_value K T ob1 (right c)")
  obtain ob1' v0' where l': "tomoyo_value K T (map_option tomoyo_validate ob) (left c) = (ob1', v0')"
    by (cases "tomoyo_value K T (map_option tomoyo_validate ob) (left c)")
  obtain ob2' v1' where r': "tomoyo_value K T ob1' (right c) = (ob2', v1')"
    by (cases "tomoyo_value K T ob1' (right c)")
  have v0: "v0' = v0"
    using tomoyo_value_snd_validate [of K T ob "left c"] l l' by simp
  have "v1' = snd (tomoyo_value K T (map_option tomoyo_validate ob) (right c))"
    using tomoyo_value_snd_after [of K T "map_option tomoyo_validate ob" "left c" "right c"] l' r'
    by simp
  also have "\<dots> = snd (tomoyo_value K T ob (right c))"
    by (rule tomoyo_value_snd_validate)
  also have "\<dots> = v1"
    using tomoyo_value_snd_after [of K T ob "left c" "right c"] l r by simp
  finally have v1: "v1' = v1" .
  show ?thesis
    unfolding clause_eq [OF l r] clause_eq [OF l' r'] v0 v1
    using compare_continue_obj [of G ob2 numbers c _ _ ob2']
    by (simp split: option.splits)
qed

lemma clause_continue:
  assumes "tomoyo_condition_clause K T G ob numbers c = Continue numbers' ob'"
  shows "numbers' = drop (operands_of c) numbers \<and>
         (ob' = ob \<or> ob' = map_option tomoyo_validate ob)"
proof -
  obtain ob1 v0 where l: "tomoyo_value K T ob (left c) = (ob1, v0)"
    by (cases "tomoyo_value K T ob (left c)")
  obtain ob2 v1 where r: "tomoyo_value K T ob1 (right c) = (ob2, v1)"
    by (cases "tomoyo_value K T ob1 (right c)")
  have 1: "ob1 = ob \<or> ob1 = map_option tomoyo_validate ob"
    using tomoyo_value_fst [of K T ob "left c"] l by simp
  have 2: "ob2 = ob1 \<or> ob2 = map_option tomoyo_validate ob1"
    using tomoyo_value_fst [of K T ob1 "right c"] r by simp
  obtain a b where "tomoyo_compare G ob2 numbers c a b = Continue numbers' ob'"
    using assms unfolding clause_eq [OF l r] by (auto split: option.splits)
  with compare_cases [of G ob2 numbers c a b]
  have "numbers' = drop (operands_of c) numbers \<and> ob' = ob2" by auto
  with 1 2 show ?thesis by (auto simp: map_validate_idem)
qed

lemma clause_no_overrun:
  assumes "operands_of c \<le> length numbers"
  shows "tomoyo_condition_clause K T G ob numbers c \<noteq> Overrun"
proof -
  obtain ob1 v0 where l: "tomoyo_value K T ob (left c) = (ob1, v0)"
    by (cases "tomoyo_value K T ob (left c)")
  obtain ob2 v1 where r: "tomoyo_value K T ob1 (right c) = (ob2, v1)"
    by (cases "tomoyo_value K T ob1 (right c)")
  show ?thesis
    unfolding clause_eq [OF l r] using compare_no_overrun [OF assms]
    by (simp split: option.splits)
qed

text \<open>
  What validation marks valid, and the two ways a path attribute of a fresh object stays
  unavailable: the path is absent, or it has no inode behind it.
\<close>

lemma get_attributes_valid:
  "stat_valid (tomoyo_get_attributes ob) TOMOYO_PATH1 \<longleftrightarrow>
     stat_valid ob TOMOYO_PATH1 \<or> (\<exists>d. path1_dentry ob = Some d \<and> d_inode d \<noteq> None)"
  "stat_valid (tomoyo_get_attributes ob) TOMOYO_PATH2 \<longleftrightarrow>
     stat_valid ob TOMOYO_PATH2 \<or> (\<exists>d. path2_dentry ob = Some d \<and> d_inode d \<noteq> None)"
  "stat_valid (tomoyo_get_attributes ob) TOMOYO_PATH1_PARENT \<longleftrightarrow>
     stat_valid ob TOMOYO_PATH1_PARENT \<or>
     (\<exists>d. path1_dentry ob = Some d \<and> d_inode (dget_parent d) \<noteq> None)"
  "stat_valid (tomoyo_get_attributes ob) TOMOYO_PATH2_PARENT \<longleftrightarrow>
     stat_valid ob TOMOYO_PATH2_PARENT \<or>
     (\<exists>d. path2_dentry ob = Some d \<and> d_inode (dget_parent d) \<noteq> None)"
  by (auto simp: tomoyo_get_attributes_def tomoyo_get_attributes_step_def Let_def
           split: option.splits)

lemma absent_path_unavailable:
  assumes "\<not> validate_done ob" and "\<forall>i. \<not> stat_valid ob i"
  shows "path1_dentry ob = None \<or> (\<exists>d. path1_dentry ob = Some d \<and> d_inode d = None) \<Longrightarrow>
           tomoyo_stat_index index = Some TOMOYO_PATH1 \<Longrightarrow> unavailable (Some ob) index"
    and "path2_dentry ob = None \<or> (\<exists>d. path2_dentry ob = Some d \<and> d_inode d = None) \<Longrightarrow>
           tomoyo_stat_index index = Some TOMOYO_PATH2 \<Longrightarrow> unavailable (Some ob) index"
    and "path1_dentry ob = None \<Longrightarrow>
           tomoyo_stat_index index = Some TOMOYO_PATH1_PARENT \<Longrightarrow> unavailable (Some ob) index"
    and "path2_dentry ob = None \<Longrightarrow>
           tomoyo_stat_index index = Some TOMOYO_PATH2_PARENT \<Longrightarrow> unavailable (Some ob) index"
  using assms
  by (auto simp: unavailable_def tomoyo_validate_def get_attributes_valid)

subsection \<open>The loop over the clauses\<close>

lemma operands_before_Suc:
  "operands_before (c # cs) (Suc i) = operands_of c + operands_before cs i"
  by (simp add: operands_before_def)

lemma loop_true_iff:
  "length cs = n \<Longrightarrow>
   fst (tomoyo_condition_loop K T G n cs numbers ob) = Some True \<longleftrightarrow>
     (\<forall>i<n. is_Continue (tomoyo_condition_clause K T G ob
                           (drop (operands_before cs i) numbers) (cs ! i)))"
proof (induction cs arbitrary: n numbers ob)
  case Nil
  then show ?case by simp
next
  case (Cons c cs)
  then obtain m where n: "n = Suc m" and m: "length cs = m" by (cases n) auto
  let ?P = "\<lambda>i. is_Continue (tomoyo_condition_clause K T G ob
                           (drop (operands_before (c # cs) i) numbers) ((c # cs) ! i))"
  have all: "(\<forall>i<Suc m. ?P i) \<longleftrightarrow> ?P 0 \<and> (\<forall>j<m. ?P (Suc j))"
    by (metis less_Suc_eq_0_disj)
  have P0: "?P 0 = is_Continue (tomoyo_condition_clause K T G ob numbers c)"
    by (simp add: operands_before_def)
  show ?case
  proof (cases "tomoyo_condition_clause K T G ob numbers c")
    case (Continue numbers' ob')
    have nums: "numbers' = drop (operands_of c) numbers"
      and obs: "ob' = ob \<or> ob' = map_option tomoyo_validate ob"
      using clause_continue [OF Continue] by simp_all
    have same: "\<And>ns d. is_Continue (tomoyo_condition_clause K T G ob' ns d) =
                       is_Continue (tomoyo_condition_clause K T G ob ns d)"
      using obs clause_validate by auto
    have step: "fst (tomoyo_condition_loop K T G n (c # cs) numbers ob) =
          fst (tomoyo_condition_loop K T G m cs numbers' ob')"
      by (simp add: n Continue)
    have PS: "\<And>j. ?P (Suc j) =
        is_Continue (tomoyo_condition_clause K T G ob'
                      (drop (operands_before cs j) numbers') (cs ! j))"
      by (simp add: operands_before_Suc nums same add.commute)
    show ?thesis
      unfolding step n all P0 PS using Cons.IH [OF m, of numbers' ob'] by (simp add: Continue)
  next
    case (Out ob')
    then show ?thesis unfolding n all P0 by simp
  next
    case Overrun
    then show ?thesis unfolding n all P0 by simp
  qed
qed

lemma loop_not_none:
  "length cs = n \<Longrightarrow> sum_list (map operands_of cs) \<le> length numbers \<Longrightarrow>
     fst (tomoyo_condition_loop K T G n cs numbers ob) \<noteq> None"
proof (induction cs arbitrary: n numbers ob)
  case Nil
  then show ?case by simp
next
  case (Cons c cs)
  then obtain m where n: "n = Suc m" and m: "length cs = m" by (cases n) auto
  have le: "operands_of c \<le> length numbers" using Cons.prems by simp
  show ?case
  proof (cases "tomoyo_condition_clause K T G ob numbers c")
    case (Continue numbers' ob')
    have nums: "numbers' = drop (operands_of c) numbers"
      using clause_continue [OF Continue] by simp
    have "sum_list (map operands_of cs) \<le> length numbers'"
      using Cons.prems by (simp add: nums)
    from Cons.IH [OF m this] show ?thesis by (simp add: n Continue)
  next
    case (Out ob')
    then show ?thesis by (simp add: n)
  next
    case Overrun
    with clause_no_overrun [OF le] show ?thesis by simp
  qed
qed

subsection \<open>Claims about the evaluator\<close>

text \<open>
  Claim C4. A call without a condition (\<open>cond\<close> is \<open>NULL\<close>) returns true for every
  request, and leaves the request's object as it is.
\<close>

theorem tomoyo_condition_null: "tomoyo_condition K T G r None = (Some True, obj r)"
  by (simp add: tomoyo_condition_def)

text \<open>
  Claim C1. A clause whose right side is \<open>TOMOYO_NUMBER_UNION\<close>, and whose left side has
  a value, continues exactly when the test on the right operand gives the clause's
  \<open>equals\<close>: the group test on the left interval when the operand has a group, and the
  overlap \<open>min_v \<le> values[1] \<and> max_v \<ge> values[0]\<close> when it has none. The left interval
  is the left operand's when the left side is \<open>TOMOYO_NUMBER_UNION\<close> too, and the single
  value of the left side otherwise. Against the interval from 10 to 20, a left value of
  15 continues exactly when \<open>equals\<close> is set, and a left value of 25 exactly when it is
  not.
\<close>

theorem tomoyo_condition_number_union_right:
  assumes r: "right c = TOMOYO_NUMBER_UNION"
      and l: "tomoyo_value K T ob (left c) = (ob', Some v)"
      and n: "numbers = (if left c = TOMOYO_NUMBER_UNION then lp # p # rest else p # rest)"
  shows "(is_Continue (tomoyo_condition_clause K T G ob numbers c) \<longleftrightarrow>
           (let min_v = (if left c = TOMOYO_NUMBER_UNION then values_0 lp else v);
                max_v = (if left c = TOMOYO_NUMBER_UNION then values_1 lp else v)
            in case group p of
                 Some g \<Rightarrow> G min_v max_v g = equals c
               | None \<Rightarrow> (min_v \<le> values_1 p \<and> max_v \<ge> values_0 p) = equals c)) \<and>
         (left c \<noteq> TOMOYO_NUMBER_UNION \<and> p = \<lparr>values_0 = 10, values_1 = 20, group = None\<rparr> \<longrightarrow>
            (v = 15 \<longrightarrow> (is_Continue (tomoyo_condition_clause K T G ob numbers c) \<longleftrightarrow> equals c)) \<and>
            (v = 25 \<longrightarrow> (is_Continue (tomoyo_condition_clause K T G ob numbers c) \<longleftrightarrow> \<not> equals c)))"
proof -
  have r': "tomoyo_value K T ob' (right c) = (ob', Some 0)"
    by (simp add: r tomoyo_value_number_union)
  have gen: "is_Continue (tomoyo_condition_clause K T G ob numbers c) \<longleftrightarrow>
           (let min_v = (if left c = TOMOYO_NUMBER_UNION then values_0 lp else v);
                max_v = (if left c = TOMOYO_NUMBER_UNION then values_1 lp else v)
            in case group p of
                 Some g \<Rightarrow> G min_v max_v g = equals c
               | None \<Rightarrow> (min_v \<le> values_1 p \<and> max_v \<ge> values_0 p) = equals c)"
    unfolding clause_eq [OF l r']
    by (simp add: tomoyo_compare_def r n Let_def split: option.splits)
  show ?thesis
    unfolding gen by (auto simp: Let_def)
qed

theorem tomoyo_condition_number_union_right_witness:
  "right \<lparr>left = TOMOYO_TASK_UID, right = TOMOYO_NUMBER_UNION, equals = True\<rparr> = TOMOYO_NUMBER_UNION \<and>
   tomoyo_value linux_stat_consts (task_of_uid 15) None TOMOYO_TASK_UID = (None, Some 15) \<and>
   is_Continue (tomoyo_condition_clause linux_stat_consts (task_of_uid 15) (\<lambda>a b g. False) None
      [\<lparr>values_0 = 10, values_1 = 20, group = None\<rparr>]
      \<lparr>left = TOMOYO_TASK_UID, right = TOMOYO_NUMBER_UNION, equals = True\<rparr>) \<and>
   \<not> is_Continue (tomoyo_condition_clause linux_stat_consts (task_of_uid 15) (\<lambda>a b g. False) None
      [\<lparr>values_0 = 10, values_1 = 20, group = None\<rparr>]
      \<lparr>left = TOMOYO_TASK_UID, right = TOMOYO_NUMBER_UNION, equals = False\<rparr>)"
proof -
  let ?c = "\<lambda>e. \<lparr>left = TOMOYO_TASK_UID, right = TOMOYO_NUMBER_UNION, equals = e\<rparr>"
  let ?p = "\<lparr>values_0 = 10, values_1 = 20, group = None\<rparr> :: tomoyo_number_union"
  have h2: "\<And>e. tomoyo_value linux_stat_consts (task_of_uid 15) None (left (?c e)) = (None, Some 15)"
    by (simp add: tomoyo_value_def task_of_uid_def)
  have h3: "\<And>e. [?p] = (if left (?c e) = TOMOYO_NUMBER_UNION then ?p # ?p # [] else ?p # [])"
    by simp
  have h1: "\<And>e. right (?c e) = TOMOYO_NUMBER_UNION" by simp
  show ?thesis
    using tomoyo_condition_number_union_right [OF h1 [of True] h2 [of True] h3 [of True], where G = "\<lambda>a b g. False"]
          tomoyo_condition_number_union_right [OF h1 [of False] h2 [of False] h3 [of False], where G = "\<lambda>a b g. False"]
          h2 [of True]
    by simp
qed

text \<open>
  Claim C2, as stated, fails: a permission bit on the left and a literal on the right
  are compared as numbers, before the bit operands are looked at, so this clause
  continues although its right side is no permission field.
\<close>

theorem tomoyo_condition_bitop_literal_counterexample:
  "is_bitop (left \<lparr>left = TOMOYO_MODE_SETUID, right = TOMOYO_NUMBER_UNION, equals = True\<rparr>) \<and>
   \<not> is_perm (right \<lparr>left = TOMOYO_MODE_SETUID, right = TOMOYO_NUMBER_UNION, equals = True\<rparr>) \<and>
   is_Continue (tomoyo_condition_clause linux_stat_consts (task_of_uid 0) (\<lambda>a b g. False) None
      [\<lparr>values_0 = 0x800, values_1 = 0x800, group = None\<rparr>]
      \<lparr>left = TOMOYO_MODE_SETUID, right = TOMOYO_NUMBER_UNION, equals = True\<rparr>)"
  by (simp add: is_bitop_def is_perm_def tomoyo_condition_clause_def tomoyo_value_def
        tomoyo_compare_def linux_stat_consts_def)

text \<open>
  Claim C2, amended. When one side is a permission bit and the other a permission field
  that has a value, the clause continues exactly when \<open>(left AND right \<noteq> 0)\<close> equals the
  clause's \<open>equals\<close>. When both sides are permission bits, or a permission bit stands
  against anything but a permission field, the clause never continues, and goes to
  \<open>out\<close> as long as a left literal has its operand in the block; the one exception is
  a permission bit on the left against a literal on the right, which Claim C1 covers.
\<close>

theorem tomoyo_condition_bitop:
  "((is_bitop (left c) \<and> is_perm (right c) \<or> is_perm (left c) \<and> is_bitop (right c)) \<longrightarrow>
      tomoyo_value K T ob (left c) = (ob1, Some lv) \<longrightarrow>
      tomoyo_value K T ob1 (right c) = (ob2, Some rv) \<longrightarrow>
      (is_Continue (tomoyo_condition_clause K T G ob numbers c) \<longleftrightarrow>
         ((lv AND rv \<noteq> 0) = equals c))) \<and>
   ((is_bitop (left c) \<and> is_bitop (right c)) \<or>
    (is_bitop (left c) \<and> \<not> is_perm (right c) \<and> right c \<noteq> TOMOYO_NUMBER_UNION) \<or>
    (is_bitop (right c) \<and> \<not> is_perm (left c)) \<longrightarrow>
      \<not> is_Continue (tomoyo_condition_clause K T G ob numbers c) \<and>
      (left c = TOMOYO_NUMBER_UNION \<longrightarrow> numbers \<noteq> [] \<longrightarrow>
         is_Out (tomoyo_condition_clause K T G ob numbers c)) \<and>
      (left c \<noteq> TOMOYO_NUMBER_UNION \<longrightarrow>
         is_Out (tomoyo_condition_clause K T G ob numbers c)))"
proof -
  obtain o1 v0 where l: "tomoyo_value K T ob (left c) = (o1, v0)"
    by (cases "tomoyo_value K T ob (left c)")
  obtain o2 v1 where r: "tomoyo_value K T o1 (right c) = (o2, v1)"
    by (cases "tomoyo_value K T o1 (right c)")
  have nb: "\<And>i. is_bitop i \<Longrightarrow> i \<noteq> TOMOYO_NUMBER_UNION \<and> \<not> is_perm i"
    by (auto simp: is_bitop_def is_perm_def split: tomoyo_conditions_index.splits)
  have np: "\<And>i. is_perm i \<Longrightarrow> i \<noteq> TOMOYO_NUMBER_UNION"
    by (auto simp: is_perm_def)
  have cmp1: "\<And>a b. is_bitop (left c) \<and> is_perm (right c) \<or> is_perm (left c) \<and> is_bitop (right c) \<Longrightarrow>
      is_Continue (tomoyo_compare G o2 numbers c a b) \<longleftrightarrow> ((a AND b \<noteq> 0) = equals c)"
    using nb [of "left c"] nb [of "right c"] np [of "left c"] np [of "right c"]
    by (auto simp: tomoyo_compare_def Let_def)
  have cmp2: "\<And>a b. (is_bitop (left c) \<and> is_bitop (right c)) \<or>
    (is_bitop (left c) \<and> \<not> is_perm (right c) \<and> right c \<noteq> TOMOYO_NUMBER_UNION) \<or>
    (is_bitop (right c) \<and> \<not> is_perm (left c)) \<Longrightarrow>
      \<not> is_Continue (tomoyo_compare G o2 numbers c a b) \<and>
      (left c = TOMOYO_NUMBER_UNION \<longrightarrow> numbers \<noteq> [] \<longrightarrow> is_Out (tomoyo_compare G o2 numbers c a b)) \<and>
      (left c \<noteq> TOMOYO_NUMBER_UNION \<longrightarrow> is_Out (tomoyo_compare G o2 numbers c a b))"
    using nb [of "left c"] nb [of "right c"]
    by (cases "left c = TOMOYO_NUMBER_UNION"; cases numbers)
       (auto simp: tomoyo_compare_def Let_def)
  show ?thesis
    unfolding clause_eq [OF l r] using cmp1 cmp2 l r
    by (cases v0; cases v1) auto
qed

lemma ex_perm_value:
  "snd (tomoyo_value linux_stat_consts T (Some (obj_of_path1 (Some (Dentry (Some file_inode) None))))
      TOMOYO_PATH1_PERM) = Some 0x1ED"
  by (simp add: tomoyo_value_def tomoyo_path_value_def tomoyo_validate_def
        tomoyo_get_attributes_def tomoyo_get_attributes_step_def obj_of_path1_def
        file_inode_def tomoyo_stat_index_def tomoyo_stat_value_def linux_stat_consts_def
        dget_parent_def Let_def)

theorem tomoyo_condition_bitop_witness:
  "is_bitop TOMOYO_MODE_OWNER_EXECUTE \<and> is_perm TOMOYO_PATH1_PERM \<and>
   is_Continue (tomoyo_condition_clause linux_stat_consts (task_of_uid 0) (\<lambda>a b g. False)
      (Some (obj_of_path1 (Some (Dentry (Some file_inode) None)))) []
      \<lparr>left = TOMOYO_MODE_OWNER_EXECUTE, right = TOMOYO_PATH1_PERM, equals = True\<rparr>) \<and>
   is_Out (tomoyo_condition_clause linux_stat_consts (task_of_uid 0) (\<lambda>a b g. False)
      (Some (obj_of_path1 (Some (Dentry (Some file_inode) None)))) []
      \<lparr>left = TOMOYO_MODE_OWNER_EXECUTE, right = TOMOYO_MODE_SETUID, equals = True\<rparr>)"
proof -
  let ?ob = "Some (obj_of_path1 (Some (Dentry (Some file_inode) None)))"
  let ?T = "task_of_uid 0"
  let ?c = "\<lparr>left = TOMOYO_MODE_OWNER_EXECUTE, right = TOMOYO_PATH1_PERM, equals = True\<rparr>"
  let ?d = "\<lparr>left = TOMOYO_MODE_OWNER_EXECUTE, right = TOMOYO_MODE_SETUID, equals = True\<rparr>"
  have b: "is_bitop TOMOYO_MODE_OWNER_EXECUTE" "is_bitop TOMOYO_MODE_SETUID"
    by (simp_all add: is_bitop_def)
  have p: "is_perm TOMOYO_PATH1_PERM" by (simp add: is_perm_def)
  have l: "tomoyo_value linux_stat_consts ?T ?ob (left ?c) = (?ob, Some 0x40)"
    by (simp add: tomoyo_value_def linux_stat_consts_def)
  have r: "tomoyo_value linux_stat_consts ?T ?ob (right ?c) =
             (fst (tomoyo_value linux_stat_consts ?T ?ob TOMOYO_PATH1_PERM), Some 0x1ED)"
    using ex_perm_value [of ?T] by (simp add: prod_eq_iff)
  have "is_Continue (tomoyo_condition_clause linux_stat_consts ?T (\<lambda>a b g. False) ?ob [] ?c)"
    using tomoyo_condition_bitop [of ?c linux_stat_consts ?T ?ob ?ob "0x40" _ "0x1ED" "\<lambda>a b g. False" "[]"] b p l r
    by simp
  moreover have "is_Out (tomoyo_condition_clause linux_stat_consts ?T (\<lambda>a b g. False) ?ob [] ?d)"
    using tomoyo_condition_bitop [of ?d linux_stat_consts ?T ?ob ?ob "0x40" ?ob "0x800" "\<lambda>a b g. False" "[]"] b
    by simp
  ultimately show ?thesis using b p by simp
qed

text \<open>
  Claim C8. In a complete condition (\<open>condc\<close> clauses, and an operand for each literal
  side, as the parser builds it): a clause that names a path attribute which is unavailable (no object, or the slot
  is not valid once the object is validated: the path is absent or has no inode) goes to
  \<open>out\<close>, and the call returns false whatever the other clauses are;
  the call returns true exactly when every clause continues, each read against the
  request's object and its own operands; and the call always returns a truth value.
\<close>

theorem tomoyo_condition_fail_closed:
  assumes complete: "block_complete cnd"
  shows "(\<forall>i<unat (condc cnd).
            unavailable (obj r) (left (condp cnd ! i)) \<or> unavailable (obj r) (right (condp cnd ! i)) \<longrightarrow>
              is_Out (tomoyo_condition_clause K T G (obj r)
                       (drop (operands_before (condp cnd) i) (numbers_p cnd)) (condp cnd ! i)) \<and>
              fst (tomoyo_condition K T G r (Some cnd)) = Some False) \<and>
         (fst (tomoyo_condition K T G r (Some cnd)) = Some True \<longleftrightarrow>
            (\<forall>i<unat (condc cnd).
               is_Continue (tomoyo_condition_clause K T G (obj r)
                       (drop (operands_before (condp cnd) i) (numbers_p cnd)) (condp cnd ! i)))) \<and>
         fst (tomoyo_condition K T G r (Some cnd)) \<noteq> None"
proof -
  have wf: "length (condp cnd) = unat (condc cnd)"
    and ops: "sum_list (map operands_of (condp cnd)) \<le> length (numbers_p cnd)"
    using complete by (simp_all add: block_complete_def)
  let ?res = "fst (tomoyo_condition K T G r (Some cnd))"
  let ?cl = "\<lambda>i. tomoyo_condition_clause K T G (obj r)
                       (drop (operands_before (condp cnd) i) (numbers_p cnd)) (condp cnd ! i)"
  have iff: "?res = Some True \<longleftrightarrow> (\<forall>i<unat (condc cnd). is_Continue (?cl i))"
    using loop_true_iff [OF wf] by (simp add: tomoyo_condition_def)
  have nn: "?res \<noteq> None"
    using loop_not_none [OF wf ops] by (simp add: tomoyo_condition_def)
  have "is_Out (?cl i) \<and> ?res = Some False"
    if i: "i < unat (condc cnd)"
      and u: "unavailable (obj r) (left (condp cnd ! i)) \<or> unavailable (obj r) (right (condp cnd ! i))"
    for i
  proof -
    have out: "is_Out (?cl i)" using u by (rule clause_unavailable)
    then have "\<not> is_Continue (?cl i)" by (cases "?cl i") simp_all
    with i iff have "?res \<noteq> Some True" by blast
    with nn have "?res = Some False" by (cases ?res) auto
    with out show ?thesis by simp
  qed
  with iff nn show ?thesis by blast
qed

theorem tomoyo_condition_fail_closed_witness:
  "block_complete \<lparr>users = 1, size_c = 0, condc = 2, numbers_count = 0,
                condp = [\<lparr>left = TOMOYO_PATH1_UID, right = TOMOYO_TASK_UID, equals = True\<rparr>,
                         \<lparr>left = TOMOYO_PATH2_UID, right = TOMOYO_TASK_UID, equals = True\<rparr>],
                numbers_p = []\<rparr> \<and>
   unavailable (Some (obj_of_path1 (Some (Dentry (Some file_inode) None)))) TOMOYO_PATH2_UID \<and>
   fst (tomoyo_condition linux_stat_consts (task_of_uid 1000) (\<lambda>a b g. False)
         \<lparr>obj = Some (obj_of_path1 (Some (Dentry (Some file_inode) None)))\<rparr>
         (Some \<lparr>users = 1, size_c = 0, condc = 2, numbers_count = 0,
                condp = [\<lparr>left = TOMOYO_PATH1_UID, right = TOMOYO_TASK_UID, equals = True\<rparr>,
                         \<lparr>left = TOMOYO_PATH2_UID, right = TOMOYO_TASK_UID, equals = True\<rparr>],
                numbers_p = []\<rparr>)) = Some False"
proof -
  let ?ob = "Some (obj_of_path1 (Some (Dentry (Some file_inode) None)))"
  let ?cnd = "\<lparr>users = 1, size_c = 0, condc = 2, numbers_count = 0,
                condp = [\<lparr>left = TOMOYO_PATH1_UID, right = TOMOYO_TASK_UID, equals = True\<rparr>,
                         \<lparr>left = TOMOYO_PATH2_UID, right = TOMOYO_TASK_UID, equals = True\<rparr>],
                numbers_p = []\<rparr>"
  have u: "unavailable ?ob TOMOYO_PATH2_UID"
    by (simp add: unavailable_def tomoyo_stat_index_def tomoyo_validate_def
          tomoyo_get_attributes_def tomoyo_get_attributes_step_def obj_of_path1_def dget_parent_def
          Let_def)
  have complete: "block_complete ?cnd"
    by (simp add: block_complete_def operands_of_def)
  have i: "(1::nat) < unat (condc ?cnd)" by simp
  from tomoyo_condition_fail_closed [OF complete, of "\<lparr>obj = ?ob\<rparr>" linux_stat_consts "task_of_uid 1000" "\<lambda>a b g. False"]
  have "\<forall>i<unat (condc ?cnd).
            unavailable ?ob (left (condp ?cnd ! i)) \<or> unavailable ?ob (right (condp ?cnd ! i)) \<longrightarrow>
              fst (tomoyo_condition linux_stat_consts (task_of_uid 1000) (\<lambda>a b g. False)
                     \<lparr>obj = ?ob\<rparr> (Some ?cnd)) = Some False"
    by simp
  from this [rule_format, OF i] u complete show ?thesis by simp
qed

section \<open>Properties of the interning store\<close>

lemma region_len:
  assumes "block_ok L a"
  shows "unat (size_c a - sizeof_condition L) = length (region L a)"
proof -
  from assms have eq: "unat (size_c a) = unat (sizeof_condition L) + length (region L a)"
    by (simp add: block_ok_def)
  then have "sizeof_condition L \<le> size_c a" by (simp add: word_le_nat_alt)
  then have "unat (size_c a - sizeof_condition L) = unat (size_c a) - unat (sizeof_condition L)"
    by (rule unat_sub)
  with eq show ?thesis by simp
qed

text \<open>
  Claim C6. Two blocks, each as large as its \<open>size\<close> says, are the same for
  \<open>tomoyo_same_condition\<close> exactly when they agree on \<open>size\<close>, on \<open>condc\<close>, on
  \<open>numbers_count\<close> and on every byte behind the header (the clause array followed by
  the operand array).
\<close>

theorem tomoyo_same_condition_iff:
  assumes "block_ok L a" and "block_ok L b"
  shows "tomoyo_same_condition L a b \<longleftrightarrow>
           size_c a = size_c b \<and> condc a = condc b \<and> numbers_count a = numbers_count b \<and>
           region L a = region L b"
proof (cases "size_c a = size_c b")
  case True
  have la: "unat (size_c a - sizeof_condition L) = length (region L a)"
    using assms(1) by (rule region_len)
  have lb: "unat (size_c a - sizeof_condition L) = length (region L b)"
    using region_len [OF assms(2)] True by simp
  have "memcmp0 (region L a) (region L b) (unat (size_c a - sizeof_condition L)) \<longleftrightarrow>
          region L a = region L b"
    unfolding memcmp0_def using la lb by simp
  then show ?thesis by (simp add: tomoyo_same_condition_def)
next
  case False
  then show ?thesis by (simp add: tomoyo_same_condition_def)
qed

lemma ex_block_ok: "block_ok arm_layout (example_block u)"
  by (simp add: block_ok_def region_def arm_layout_def word_bytes_def example_block_def)

theorem tomoyo_same_condition_iff_witness: "block_ok arm_layout (example_block 0) \<and> block_ok arm_layout (example_block 3) \<and>
   tomoyo_same_condition arm_layout (example_block 0) (example_block 3)"
  using tomoyo_same_condition_iff [OF ex_block_ok [of 0] ex_block_ok [of 3]] ex_block_ok [of 0] ex_block_ok [of 3]
  by (simp add: region_def example_block_def)

subsection \<open>tomoyo_commit_condition\<close>

lemma share_none:
  "tomoyo_share L lst e = None \<longleftrightarrow> (\<forall>n\<in>set lst. \<not> tomoyo_same_condition L (snd n) e)"
  by (induction lst) (auto split: if_splits)

lemma share_first:
  "\<forall>n\<in>set pre. \<not> tomoyo_same_condition L (snd n) e \<Longrightarrow> tomoyo_same_condition L a e \<Longrightarrow>
     tomoyo_share L (pre @ (ptr, a) # post) e =
       Some (pre @ (ptr, a\<lparr>users := users a + 1\<rparr>) # post, ptr)"
  by (induction pre) auto

lemma share_some:
  "tomoyo_share L lst e = Some (lst', p) \<Longrightarrow>
     \<exists>a. (p, a\<lparr>users := users a + 1\<rparr>) \<in> set lst' \<and> tomoyo_same_condition L a e"
proof (induction lst arbitrary: lst')
  case Nil
  then show ?case by simp
next
  case (Cons n lst)
  obtain q a where n: "n = (q, a)" by (cases n)
  show ?case
  proof (cases "tomoyo_same_condition L a e")
    case True
    with Cons.prems n show ?thesis by auto
  next
    case False
    with Cons.prems n obtain r where r: "tomoyo_share L lst e = Some (r, p)" and l: "lst' = (q, a) # r"
      by (auto split: option.splits)
    from Cons.IH [OF r] l show ?thesis by auto
  qed
qed

lemma commit_success:
  assumes "mutex_lock_interruptible X = 0"
      and "(\<exists>n\<in>set lst. tomoyo_same_condition L (snd n) e) \<or> tomoyo_memory_ok X e"
  shows "\<exists>p c. returned (tomoyo_commit_condition L X lst entry e) = Some p \<and>
           (p, c) \<in> set (condition_list (tomoyo_commit_condition L X lst entry e)) \<and>
           size_c c = size_c e \<and> condc c = condc e \<and> numbers_count c = numbers_count e"
proof (cases "tomoyo_share L lst e")
  case None
  with assms share_none [of L lst e] show ?thesis
    by (auto simp: tomoyo_commit_condition_def)
next
  case (Some r)
  obtain lst' p where r: "r = (lst', p)" by (cases r)
  from share_some [OF Some [unfolded r]]
  obtain a where "(p, a\<lparr>users := users a + 1\<rparr>) \<in> set lst'" "tomoyo_same_condition L a e"
    by blast
  then have "(p, a\<lparr>users := users a + 1\<rparr>) \<in> set lst' \<and>
             size_c (a\<lparr>users := users a + 1\<rparr>) = size_c e \<and>
             condc (a\<lparr>users := users a + 1\<rparr>) = condc e \<and>
             numbers_count (a\<lparr>users := users a + 1\<rparr>) = numbers_count e"
    by (simp add: tomoyo_same_condition_def)
  with assms(1) Some r show ?thesis
    by (auto simp: tomoyo_commit_condition_def)
qed

text \<open>
  Claim C3. With the lock taken: if a node of the list is the same as the entry, the first
  such node has its \<open>users\<close> raised by one and is returned, and the entry is released; if
  no node is the same and the quota admits the entry, the entry gets \<open>users = 1\<close>, becomes
  the head of the list and is returned; if the quota refuses it, the entry is released
  and \<open>NULL\<close> is returned. With the wait for the lock interrupted, the entry is released
  and \<open>NULL\<close> is returned.
\<close>

theorem tomoyo_commit_condition_cases:
  "(mutex_lock_interruptible X = 0 \<and> lst = pre @ (ptr, a) # post \<and>
      (\<forall>n\<in>set pre. \<not> tomoyo_same_condition L (snd n) e) \<and> tomoyo_same_condition L a e \<longrightarrow>
        tomoyo_commit_condition L X lst entry e =
          \<lparr>returned = Some ptr,
           condition_list = pre @ (ptr, a\<lparr>users := users a + 1\<rparr>) # post,
           released = [Tomoyo_del_condition entry, Kfree entry]\<rparr>) \<and>
   (mutex_lock_interruptible X = 0 \<and> (\<forall>n\<in>set lst. \<not> tomoyo_same_condition L (snd n) e) \<and>
      tomoyo_memory_ok X e \<longrightarrow>
        tomoyo_commit_condition L X lst entry e =
          \<lparr>returned = Some entry, condition_list = (entry, e\<lparr>users := 1\<rparr>) # lst,
           released = []\<rparr>) \<and>
   (mutex_lock_interruptible X = 0 \<and> (\<forall>n\<in>set lst. \<not> tomoyo_same_condition L (snd n) e) \<and>
      \<not> tomoyo_memory_ok X e \<longrightarrow>
        tomoyo_commit_condition L X lst entry e =
          \<lparr>returned = None, condition_list = lst,
           released = [Tomoyo_del_condition entry, Kfree entry]\<rparr>) \<and>
   (mutex_lock_interruptible X \<noteq> 0 \<longrightarrow>
        tomoyo_commit_condition L X lst entry e =
          \<lparr>returned = None, condition_list = lst,
           released = [Tomoyo_del_condition entry, Kfree entry]\<rparr>)"
  using share_none [of L lst e] share_first [of pre L e a ptr post]
  by (auto simp: tomoyo_commit_condition_def)

theorem tomoyo_commit_condition_cases_witness:
  "mutex_lock_interruptible spec_collaborators = 0 \<and>
   tomoyo_same_condition arm_layout (example_block 3) (example_block 0) \<and>
   tomoyo_commit_condition arm_layout spec_collaborators [(8, example_block 3)] 64 (example_block 0) =
     \<lparr>returned = Some 8, condition_list = [(8, example_block 4)],
      released = [Tomoyo_del_condition 64, Kfree 64]\<rparr> \<and>
   tomoyo_memory_ok spec_collaborators (example_block 0) \<and>
   tomoyo_commit_condition arm_layout spec_collaborators [] 64 (example_block 0) =
     \<lparr>returned = Some 64, condition_list = [(64, example_block 1)], released = []\<rparr>"
proof -
  have l: "mutex_lock_interruptible spec_collaborators = 0"
    and m: "tomoyo_memory_ok spec_collaborators (example_block 0)"
    by (simp_all add: spec_collaborators_def)
  have s: "tomoyo_same_condition arm_layout (example_block 3) (example_block 0)"
    by (simp add: tomoyo_same_condition_def memcmp0_def region_def example_block_def)
  have u: "(example_block 3)\<lparr>users := users (example_block 3) + 1\<rparr> = example_block 4" "(example_block 0)\<lparr>users := 1\<rparr> = example_block 1"
    by (simp_all add: example_block_def)
  from tomoyo_commit_condition_cases [of spec_collaborators "[(8, example_block 3)]" "[]" 8 "example_block 3" "[]" arm_layout "example_block 0" 64]
       tomoyo_commit_condition_cases [of spec_collaborators "[]" "[]" 8 "example_block 3" "[]" arm_layout "example_block 0" 64]
       l m s u
  show ?thesis by simp
qed

section \<open>Properties of the parser\<close>

subsection \<open>Strings and the split of a clause\<close>

lemma NUL_neq [simp]:
  "CHR '' '' \<noteq> NUL" "CHR ''='' \<noteq> NUL" "CHR ''!'' \<noteq> NUL" "CHR ''@'' \<noteq> NUL"
  "NUL \<noteq> CHR '' ''" "NUL \<noteq> CHR ''=''" "NUL \<noteq> CHR ''!''" "NUL \<noteq> CHR ''@''"
  by (simp_all add: NUL_def)

lemma strchr_list_absent: "ch \<notin> set xs \<Longrightarrow> strchr_list xs ch = None"
  by (induction xs) auto

lemma strchr_list_stop:
  "ch \<notin> set xs \<Longrightarrow> ch \<noteq> NUL \<Longrightarrow> strchr_list (xs @ NUL # ys) ch = None"
  by (induction xs) auto

lemma strchr_list_found:
  "ch \<notin> set xs \<Longrightarrow> NUL \<notin> set xs \<Longrightarrow> strchr_list (xs @ ch # ys) ch = Some (length xs)"
  by (induction xs) auto

lemma strchr_at: "strchr (before @ xs) (length before) ch = map_option (\<lambda>i. length before + i) (strchr_list xs ch)"
  by (simp add: strchr_def)

lemma byte_at_append: "byte_at (before @ xs) (length before + i) = byte_at xs i"
  by (simp add: byte_at_def nth_append)

lemma byte_at_append0: "byte_at (before @ xs) (length before) = byte_at xs 0"
  using byte_at_append [of before xs 0] by simp

lemma byte_at_mid: "byte_at (xs @ x # ys) (length xs) = x"
  by (simp add: byte_at_def nth_append)

lemma byte_at_end: "byte_at xs (length xs) = NUL"
  by (simp add: byte_at_def)



lemma update_at:
  "(before @ tok @ x # r)[length before + length tok := y] = before @ tok @ y # r"
  by (simp add: list_update_append)

lemma strchr_space:
  assumes "CHR '' '' \<notin> set tok" and "NUL \<notin> set tok"
  shows "strchr (before @ tok) (length before) (CHR '' '') = None"
    and "strchr (before @ tok @ CHR '' '' # r) (length before) (CHR '' '') =
           Some (length before + length tok)"
  using assms by (simp_all add: strchr_at strchr_list_absent strchr_list_found)

lemma strchr_equals:
  assumes "CHR ''='' \<notin> set a" and "NUL \<notin> set a"
  shows "strchr (before @ a @ CHR ''='' # r) (length before) (CHR ''='') =
           Some (length before + length a)"
    and "strchr (before @ a) (length before) (CHR ''='') = None"
    and "strchr (before @ a @ NUL # r) (length before) (CHR ''='') = None"
  using assms by (simp_all add: strchr_at strchr_list_absent strchr_list_found strchr_list_stop)

text \<open>What the split does to a clause without an equals sign, and to one with.\<close>

lemma split_clause_no_equals:
  assumes "NUL \<notin> set tok" and "CHR '' '' \<notin> set tok" and "CHR ''='' \<notin> set tok"
      and "sep = [] \<or> (\<exists>r. sep = CHR '' '' # r)"
  shows "tomoyo_split_clause (before @ tok @ sep) (length before) = None"
proof (cases sep)
  case Nil
  with assms show ?thesis
    by (simp add: tomoyo_split_clause_def strchr_space strchr_equals)
next
  case (Cons x r)
  with assms have sep: "sep = CHR '' '' # r" by simp
  show ?thesis
    using assms(1-3)
    by (simp add: sep tomoyo_split_clause_def strchr_space update_at strchr_equals)
qed

lemma split_clause_equals:
  assumes a: "NUL \<notin> set a" "CHR '' '' \<notin> set a" "CHR ''='' \<notin> set a"
      and b: "NUL \<notin> set b" "CHR '' '' \<notin> set b"
      and sep: "sep = [] \<or> (\<exists>r. sep = CHR '' '' # r)"
  shows "tomoyo_split_clause (before @ (a @ CHR ''='' # b) @ sep) (length before) =
     (if a = [] then None
      else if last a = CHR ''!''
        then Some (before @ (butlast a @ NUL # CHR ''='' # b) @
                     (case sep of [] \<Rightarrow> [] | x # r \<Rightarrow> NUL # r),
                   length before + length a + 1 + length b + (if sep = [] then 0 else 1),
                   length before + length a + 1, True)
      else if b \<noteq> [] \<and> hd b = CHR ''='' then None
      else Some (before @ (a @ NUL # b) @ (case sep of [] \<Rightarrow> [] | x # r \<Rightarrow> NUL # r),
                 length before + length a + 1 + length b + (if sep = [] then 0 else 1),
                 length before + length a + 1, False))"
proof -
  let ?tok = "a @ CHR ''='' # b"
  define sep' where "sep' = (case sep of [] \<Rightarrow> [] | x # r \<Rightarrow> NUL # r)"
  define pos1 where "pos1 = length before + length a + 1 + length b + (if sep = [] then 0 else 1)"
  define B where "B = before @ ?tok @ sep'"
  define lw where "lw = length before"
  define rw where "rw = length before + length a"
  have tok: "NUL \<notin> set ?tok" "CHR '' '' \<notin> set ?tok" using a b by simp_all
  have first: "(case strchr (before @ ?tok @ sep) (length before) (CHR '' '') of
                  Some cp \<Rightarrow> ((before @ ?tok @ sep)[cp := NUL], cp + 1)
                | None \<Rightarrow> (before @ ?tok @ sep, length (before @ ?tok @ sep))) = (B, pos1)"
  proof (cases sep)
    case Nil
    then show ?thesis
      using strchr_space(1) [OF tok(2) tok(1), of before] by (simp add: B_def sep'_def pos1_def)
  next
    case (Cons x r)
    with sep have s: "sep = CHR '' '' # r" by simp
    show ?thesis
      using strchr_space(2) [OF tok(2) tok(1), of before r] update_at [of before ?tok "CHR '' ''" r NUL]
      by (simp add: s B_def sep'_def pos1_def)
  qed
  have eq: "strchr B lw (CHR ''='') = Some rw"
    using strchr_equals(1) [OF a(3) a(1), of before "b @ sep'"] by (simp add: B_def lw_def rw_def)
  have rw0: "rw = lw \<longleftrightarrow> a = []" by (simp add: rw_def lw_def)
  have prev: "byte_at B (rw - 1) = last a" if "a \<noteq> []"
  proof -
    from that obtain a' l where al: "a = a' @ [l]" by (metis append_butlast_last_id)
    have "byte_at ((before @ a') @ l # (CHR ''='' # b @ sep')) (length (before @ a')) = l"
      by (rule byte_at_mid)
    then show ?thesis by (simp add: al B_def rw_def)
  qed
  have nxt: "byte_at B (rw + 1) = (if b = [] then NUL else hd b)"
  proof (cases b)
    case Nil
    show ?thesis
    proof (cases sep')
      case Nil
      have "byte_at (before @ a @ [CHR ''='']) (length (before @ a @ [CHR ''=''])) = NUL"
        by (rule byte_at_end)
      then show ?thesis using \<open>b = []\<close> Nil by (simp add: B_def rw_def)
    next
      case (Cons x r)
      then have x: "x = NUL" by (auto simp: sep'_def split: list.splits)
      have "byte_at ((before @ a @ [CHR ''='']) @ x # r) (length (before @ a @ [CHR ''=''])) = x"
        by (rule byte_at_mid)
      then show ?thesis using \<open>b = []\<close> Cons x by (simp add: B_def rw_def)
    qed
  next
    case (Cons y ys)
    have "byte_at ((before @ a @ [CHR ''='']) @ y # (ys @ sep')) (length (before @ a @ [CHR ''=''])) = y"
      by (rule byte_at_mid)
    then show ?thesis using Cons by (simp add: B_def rw_def)
  qed
  have upd_not: "B[rw - 1 := NUL] = before @ (butlast a @ NUL # CHR ''='' # b) @ sep'" if "a \<noteq> []"
  proof -
    from that obtain a' l where al: "a = a' @ [l]" by (metis append_butlast_last_id)
    have "(before @ a' @ l # (CHR ''='' # b @ sep'))[length before + length a' := NUL] =
            before @ a' @ NUL # (CHR ''='' # b @ sep')"
      by (rule update_at)
    then show ?thesis by (simp add: al B_def rw_def)
  qed
  have upd_eq: "B[rw := NUL] = before @ (a @ NUL # b) @ sep'"
    using update_at [of before a "CHR ''=''" "b @ sep'" NUL] by (simp add: B_def rw_def)
  have "tomoyo_split_clause (before @ ?tok @ sep) lw =
     (if a = [] then None
      else if last a = CHR ''!''
        then Some (before @ (butlast a @ NUL # CHR ''='' # b) @ sep', pos1, rw + 1, True)
      else if b \<noteq> [] \<and> hd b = CHR ''='' then None
      else Some (before @ (a @ NUL # b) @ sep', pos1, rw + 1, False))"
  proof (cases "a = []")
    case True
    then show ?thesis
      unfolding tomoyo_split_clause_def lw_def first using eq rw0
      by (simp add: lw_def)
  next
    case False
    then show ?thesis
      unfolding tomoyo_split_clause_def lw_def first using eq rw0 prev nxt upd_not upd_eq
      by (simp add: lw_def)
  qed
  then show ?thesis
    by (simp add: lw_def rw_def pos1_def sep'_def)
qed

text \<open>A token and its split at the first equals sign.\<close>

lemma token_split:
  assumes "CHR ''='' \<in> set tok"
  obtains a b where "tok = a @ CHR ''='' # b" and "CHR ''='' \<notin> set a"
  using assms split_list_first by metis

subsection \<open>The buffer after the first pass\<close>

lemma restore_plain: "NUL \<notin> set xs \<Longrightarrow> tomoyo_restore f (xs @ ys) = xs @ tomoyo_restore f ys"
  by (induction xs) auto

lemma restore_plain0: "NUL \<notin> set xs \<Longrightarrow> tomoyo_restore f xs = xs"
  using restore_plain [of xs f "[]"] by simp

lemma restore_length: "length (tomoyo_restore f xs) = length xs"
  by (induction xs arbitrary: f) auto

lemma first_token:
  obtains tok sep where "rest = tok @ sep" and "CHR '' '' \<notin> set tok"
    and "sep = [] \<or> (\<exists>r. sep = CHR '' '' # r)"
proof
  let ?tok = "takeWhile (\<lambda>c. c \<noteq> CHR '' '') rest"
  let ?sep = "dropWhile (\<lambda>c. c \<noteq> CHR '' '') rest"
  show "rest = ?tok @ ?sep" by simp
  show "CHR '' '' \<notin> set ?tok" by (auto dest: set_takeWhileD)
  show "?sep = [] \<or> (\<exists>r. ?sep = CHR '' '' # r)"
  proof (cases ?sep)
    case Nil
    then show ?thesis by simp
  next
    case (Cons x r)
    then have "x = CHR '' ''" using hd_dropWhile [of "\<lambda>c. c \<noteq> CHR '' ''" rest] by auto
    with Cons show ?thesis by simp
  qed
qed

lemma parse_side_data:
  "tomoyo_parse_side X b w s = Inr (i, s') \<Longrightarrow> data s' = data s \<and> pos s' = pos s"
  by (auto simp: tomoyo_parse_side_def Let_def split: if_splits option.splits)

lemma step_split:
  assumes "tomoyo_get_condition_step X st = Inr st'"
  shows "\<exists>rw n. tomoyo_split_clause (data st) (pos st) = Some (data st', pos st', rw, n)"
proof -
  obtain buf pos1 rw n where s: "tomoyo_split_clause (data st) (pos st) = Some (buf, pos1, rw, n)"
    using assms by (auto simp: tomoyo_get_condition_step_def split: option.splits)
  have "data st' = buf \<and> pos st' = pos1"
    using assms s
    by (auto simp: tomoyo_get_condition_step_def split: sum.splits option.splits if_splits
             dest!: parse_side_data)
  with s show ?thesis by simp
qed

lemma step_token:
  assumes step: "tomoyo_get_condition_step X st = Inr st'"
      and d: "data st = before @ tok @ sep" and p: "pos st = length before"
      and tok: "NUL \<notin> set tok" "CHR '' '' \<notin> set tok"
      and sep: "sep = [] \<or> (\<exists>r. sep = CHR '' '' # r)"
  shows "\<exists>tok'. data st' = before @ tok' @ (case sep of [] \<Rightarrow> [] | x # r \<Rightarrow> NUL # r) \<and>
           length tok' = length tok \<and> 2 \<le> length tok \<and>
           pos st' = length before + length tok + (if sep = [] then 0 else 1) \<and>
           (\<forall>Y. tomoyo_restore False (tok' @ NUL # Y) = tok @ CHR '' '' # tomoyo_restore False Y) \<and>
           tomoyo_restore False tok' = tok"
proof -
  obtain rw n where s: "tomoyo_split_clause (before @ tok @ sep) (length before) =
                          Some (data st', pos st', rw, n)"
    using step_split [OF step] d p by auto
  have "CHR ''='' \<in> set tok"
  proof (rule ccontr)
    assume "CHR ''='' \<notin> set tok"
    from split_clause_no_equals [OF tok this sep, of before] s show False by simp
  qed
  then obtain a b where ab: "tok = a @ CHR ''='' # b" and na: "CHR ''='' \<notin> set a"
    by (rule token_split)
  have a: "NUL \<notin> set a" "CHR '' '' \<notin> set a" and b: "NUL \<notin> set b" "CHR '' '' \<notin> set b"
    using tok ab by simp_all
  note eq = split_clause_equals [OF a na b sep, of before]
  have ne: "a \<noteq> []" using eq s ab by (auto split: if_splits)
  show ?thesis
  proof (cases "last a = CHR ''!''")
    case True
    let ?tok' = "butlast a @ NUL # CHR ''='' # b"
    have a': "a = butlast a @ [CHR ''!'']" using ne True by (metis append_butlast_last_id)
    have nb: "NUL \<notin> set (butlast a)" using a(1) by (auto dest: in_set_butlastD)
    have "data st' = before @ ?tok' @ (case sep of [] \<Rightarrow> [] | x # r \<Rightarrow> NUL # r)"
         "pos st' = length before + length tok + (if sep = [] then 0 else 1)"
      using eq s ab ne True by simp_all
    moreover have "length ?tok' = length tok" "2 \<le> length tok" using ab ne by (cases a; simp)+
    moreover have "tomoyo_restore False (?tok' @ NUL # Y) = tok @ CHR '' '' # tomoyo_restore False Y" for Y
    proof -
      have "tomoyo_restore False (butlast a @ (NUL # CHR ''='' # b @ NUL # Y)) =
              butlast a @ tomoyo_restore False (NUL # CHR ''='' # b @ NUL # Y)"
        using nb by (rule restore_plain)
      moreover have "tomoyo_restore False (NUL # CHR ''='' # b @ NUL # Y) =
              CHR ''!'' # CHR ''='' # b @ CHR '' '' # tomoyo_restore False Y"
        using b(1) by (simp add: restore_plain)
      ultimately show ?thesis using a' ab by (metis append.assoc append_Cons append_Nil)
    qed
    moreover have "tomoyo_restore False ?tok' = tok"
    proof -
      have "tomoyo_restore False (butlast a @ (NUL # CHR ''='' # b)) =
              butlast a @ tomoyo_restore False (NUL # CHR ''='' # b)"
        using nb by (rule restore_plain)
      moreover have "tomoyo_restore False (NUL # CHR ''='' # b) = CHR ''!'' # CHR ''='' # b"
        using b(1) by (simp add: restore_plain0)
      ultimately show ?thesis using a' ab by (metis append.assoc append_Cons append_Nil)
    qed
    ultimately show ?thesis by blast
  next
    case False
    let ?tok' = "a @ NUL # b"
    have hb: "\<not> (b \<noteq> [] \<and> hd b = CHR ''='')" using eq s ab ne False by (auto split: if_splits)
    have "data st' = before @ ?tok' @ (case sep of [] \<Rightarrow> [] | x # r \<Rightarrow> NUL # r)"
         "pos st' = length before + length tok + (if sep = [] then 0 else 1)"
      using eq s ab ne False hb by (simp_all split: if_splits)
    moreover have "length ?tok' = length tok" "2 \<le> length tok" using ab ne by (cases a; simp)+
    moreover have "tomoyo_restore False (?tok' @ NUL # Y) = tok @ CHR '' '' # tomoyo_restore False Y" for Y
    proof -
      have "tomoyo_restore False (a @ (NUL # b @ NUL # Y)) =
              a @ tomoyo_restore False (NUL # b @ NUL # Y)"
        using a(1) by (rule restore_plain)
      moreover have "tomoyo_restore False (NUL # b @ NUL # Y) =
              CHR ''='' # b @ CHR '' '' # tomoyo_restore False Y"
        using b(1) hb by (cases b) (auto simp: restore_plain)
      ultimately show ?thesis using ab by simp
    qed
    moreover have "tomoyo_restore False ?tok' = tok"
    proof -
      have "tomoyo_restore False (a @ (NUL # b)) = a @ tomoyo_restore False (NUL # b)"
        using a(1) by (rule restore_plain)
      moreover have "tomoyo_restore False (NUL # b) = CHR ''='' # b"
        using b(1) hb by (cases b) (auto simp: restore_plain0)
      ultimately show ?thesis using ab by simp
    qed
    ultimately show ?thesis by blast
  qed
qed

lemma loop_restore:
  "tomoyo_get_condition_loop X st = Done fin \<Longrightarrow> data st = before @ rest \<Longrightarrow>
   pos st = length before \<Longrightarrow> NUL \<notin> set rest \<Longrightarrow>
     \<exists>rest'. data fin = before @ rest' \<and> tomoyo_restore False rest' = rest"
proof (induction X st arbitrary: before rest rule: tomoyo_get_condition_loop.induct)
  case (1 X st)
  show ?case
  proof (cases "byte_at (data st) (pos st) = NUL")
    case True
    then have "fin = st" using "1.prems"(1) by (simp add: tomoyo_get_condition_loop.simps [of X st])
    then show ?thesis using "1.prems" by (simp add: restore_plain0)
  next
    case False
    then obtain st' where step: "tomoyo_get_condition_step X st = Inr st'"
      and loop: "tomoyo_get_condition_loop X st' = Done fin"
      using "1.prems"(1)
      by (auto simp: tomoyo_get_condition_loop.simps [of X st] split: sum.splits parse_error.splits)
    obtain tok sep where ts: "rest = tok @ sep" and t1: "CHR '' '' \<notin> set tok"
      and sep: "sep = [] \<or> (\<exists>r. sep = CHR '' '' # r)"
      by (rule first_token)
    have t0: "NUL \<notin> set tok" using "1.prems"(4) ts by simp
    from step_token [OF step _ "1.prems"(3) t0 t1 sep] "1.prems"(2) ts
    obtain tok' where d': "data st' = before @ tok' @ (case sep of [] \<Rightarrow> [] | x # r \<Rightarrow> NUL # r)"
      and p': "pos st' = length before + length tok + (if sep = [] then 0 else 1)"
      and len: "length tok' = length tok"
      and r1: "\<And>Y. tomoyo_restore False (tok' @ NUL # Y) = tok @ CHR '' '' # tomoyo_restore False Y"
      and r0: "tomoyo_restore False tok' = tok"
      by auto
    show ?thesis
    proof (cases sep)
      case Nil
      have "\<exists>rest'. data fin = (before @ tok') @ rest' \<and> tomoyo_restore False rest' = []"
        using "1.IH" [OF False step loop, of "before @ tok'" "[]"] d' p' len Nil by simp
      then obtain rest' where "data fin = (before @ tok') @ rest'" "tomoyo_restore False rest' = []"
        by blast
      moreover from this have "rest' = []" using restore_length [of False rest'] by simp
      ultimately show ?thesis using r0 ts Nil by simp
    next
      case (Cons x r)
      with sep have x: "sep = CHR '' '' # r" by simp
      have nr: "NUL \<notin> set r" using "1.prems"(4) ts x by simp
      have "\<exists>rest'. data fin = (before @ tok' @ [NUL]) @ rest' \<and> tomoyo_restore False rest' = r"
        using "1.IH" [OF False step loop, of "before @ tok' @ [NUL]" r] d' p' len x nr by simp
      then obtain rest' where f: "data fin = (before @ tok' @ [NUL]) @ rest'"
        and "tomoyo_restore False rest' = r"
        by blast
      then have "tomoyo_restore False (tok' @ NUL # rest') = rest"
        using r1 [of rest'] ts x by simp
      with f show ?thesis by simp
    qed
  qed
qed

text \<open>
  Claim C5. When the first pass over a C string runs to its end, the restoring loop turns
  the buffer the pass leaves behind into the string again, byte for byte.
\<close>

theorem tomoyo_restore_first_pass:
  assumes "NUL \<notin> set s"
      and "tomoyo_get_condition_loop X (first_pass s) = Done st"
  shows "tomoyo_restore False (data st) = s"
  using loop_restore [OF assms(2), of "[]" s] assms(1) by (simp add: first_pass_def)

lemma ex_first_pass:
  "tomoyo_get_condition_loop spec_collaborators (first_pass ''task.uid=0 path1.uid!=task.uid'') =
     Done \<lparr>data = ''task.uid'' @ NUL # ''0'' @ NUL # ''path1.uid'' @ NUL # ''=task.uid'',
           pos = 30, e_condc = 2, e_numbers_count = 1, entry_block = None\<rparr>"
  by code_simp

theorem tomoyo_restore_first_pass_witness:
  "NUL \<notin> set ''task.uid=0 path1.uid!=task.uid'' \<and>
   tomoyo_get_condition_loop spec_collaborators (first_pass ''task.uid=0 path1.uid!=task.uid'') =
     Done \<lparr>data = ''task.uid'' @ NUL # ''0'' @ NUL # ''path1.uid'' @ NUL # ''=task.uid'',
           pos = 30, e_condc = 2, e_numbers_count = 1, entry_block = None\<rparr> \<and>
   tomoyo_restore False (''task.uid'' @ NUL # ''0'' @ NUL # ''path1.uid'' @ NUL # ''=task.uid'') =
     ''task.uid=0 path1.uid!=task.uid''"
proof -
  have n: "NUL \<notin> set ''task.uid=0 path1.uid!=task.uid''" by (simp add: NUL_def)
  from tomoyo_restore_first_pass [OF n ex_first_pass] n ex_first_pass show ?thesis by simp
qed

subsection \<open>Clauses the parser refuses\<close>

text \<open>A round in the first pass and in the second.\<close>

lemma parse_side_dry:
  "entry_block st = None \<Longrightarrow>
     tomoyo_parse_side X is_left w st =
       Inr (tomoyo_condition_type (tomoyo_condition_keyword X) w,
            if tomoyo_condition_type (tomoyo_condition_keyword X) w = TOMOYO_MAX_CONDITION_KEYWORD
            then st\<lparr>e_numbers_count := e_numbers_count st + 1\<rparr> else st)"
  by (simp add: tomoyo_parse_side_def Let_def)


























subsection \<open>What the parser builds\<close>

text \<open>
  With a keyword table that has no entry for \<open>TOMOYO_NUMBER_UNION\<close> (its indices lie
  below \<open>TOMOYO_MAX_CONDITION_KEYWORD\<close>), every block a call puts on the list is
  complete, as long as the blocks on the list were.
\<close>

lemma condition_type_table:
  "\<forall>n\<in>set table. fst n \<noteq> TOMOYO_NUMBER_UNION \<Longrightarrow>
     tomoyo_condition_type table w \<noteq> TOMOYO_NUMBER_UNION"
  by (induction table) (auto split: if_splits)

lemma parse_side_second:
  assumes tab: "\<forall>n\<in>set (tomoyo_condition_keyword X). fst n \<noteq> TOMOYO_NUMBER_UNION"
      and en: "entry_block st = Some en"
      and r: "tomoyo_parse_side X il w st = Inr (i, st')"
  shows "\<exists>ns. entry_block st' = Some (en\<lparr>numbers_p := numbers_p en @ ns\<rparr>) \<and>
           length ns = (if i = TOMOYO_NUMBER_UNION then 1 else 0) \<and>
           (ns \<noteq> [] \<longrightarrow> length (numbers_p en) + length ns \<le> unat (numbers_count en)) \<and>
           e_numbers_count st' + of_nat (length ns) = e_numbers_count st \<and>
           e_condc st' = e_condc st"
proof (cases "tomoyo_condition_type (tomoyo_condition_keyword X) w = TOMOYO_MAX_CONDITION_KEYWORD")
  case True
  with r en show ?thesis
    by (auto simp: tomoyo_parse_side_def Let_def split: if_splits option.splits
             intro!: exI [of _ "[n]" for n])
next
  case False
  with r en condition_type_table [OF tab, of w] show ?thesis
    by (auto simp: tomoyo_parse_side_def Let_def intro!: exI [of _ "[]"])
qed

lemma step_second_inv:
  assumes tab: "\<forall>n\<in>set (tomoyo_condition_keyword X). fst n \<noteq> TOMOYO_NUMBER_UNION"
      and inv: "second_inv st" and step: "tomoyo_get_condition_step X st = Inr st'"
  shows "second_inv st'"
proof -
  from inv obtain en where en: "entry_block st = Some en"
    and c: "e_condc st + of_nat (length (condp en)) = condc en"
    and n: "e_numbers_count st + of_nat (length (numbers_p en)) = numbers_count en"
    and lc: "length (condp en) \<le> unat (condc en)"
    and ln: "length (numbers_p en) \<le> unat (numbers_count en)"
    and s: "sum_list (map operands_of (condp en)) = length (numbers_p en)"
    by (auto simp: second_inv_def)
  obtain buf pos1 rw nt where sp: "tomoyo_split_clause (data st) (pos st) = Some (buf, pos1, rw, nt)"
    using step by (auto simp: tomoyo_get_condition_step_def split: option.splits)
  let ?s0 = "st\<lparr>data := buf, pos := pos1\<rparr>"
  obtain l s1 where p1: "tomoyo_parse_side X True (c_string buf (pos st)) ?s0 = Inr (l, s1)"
    using step sp by (auto simp: tomoyo_get_condition_step_def split: sum.splits)
  have e0: "entry_block ?s0 = Some en" using en by simp
  from parse_side_second [OF tab e0 p1]
  obtain ns1 where a1: "entry_block s1 = Some (en\<lparr>numbers_p := numbers_p en @ ns1\<rparr>)"
    "length ns1 = (if l = TOMOYO_NUMBER_UNION then 1 else 0)"
    "e_numbers_count s1 + of_nat (length ns1) = e_numbers_count st"
    "e_condc s1 = e_condc st"
    "ns1 \<noteq> [] \<longrightarrow> length (numbers_p en) + length ns1 \<le> unat (numbers_count en)"
    by auto
  let ?s1 = "s1\<lparr>e_condc := (if entry_block s1 = None then e_condc s1 + 1 else e_condc s1 - 1)\<rparr>"
  let ?en1 = "en\<lparr>numbers_p := numbers_p en @ ns1\<rparr>"
  obtain r s2 where p2: "tomoyo_parse_side X False (c_string buf rw) ?s1 = Inr (r, s2)"
    using step sp p1 by (auto simp: tomoyo_get_condition_step_def split: sum.splits)
  have e1: "entry_block ?s1 = Some ?en1" using a1(1) by simp
  from parse_side_second [OF tab e1 p2]
  obtain ns2 where a2: "entry_block s2 = Some (?en1\<lparr>numbers_p := numbers_p ?en1 @ ns2\<rparr>)"
    "length ns2 = (if r = TOMOYO_NUMBER_UNION then 1 else 0)"
    "ns2 \<noteq> [] \<longrightarrow> length (numbers_p ?en1) + length ns2 \<le> unat (numbers_count ?en1)"
    "e_numbers_count s2 + of_nat (length ns2) = e_numbers_count ?s1"
    "e_condc s2 = e_condc ?s1"
    by blast
  let ?en2 = "?en1\<lparr>numbers_p := numbers_p ?en1 @ ns2\<rparr>"
  let ?c = "\<lparr>left = l, right = r, equals = \<not> nt\<rparr>"
  have lt: "length (condp ?en2) < unat (condc ?en2)"
    and st': "st' = s2\<lparr>entry_block := Some (?en2\<lparr>condp := condp ?en2 @ [?c]\<rparr>)\<rparr>"
    using step sp p1 p2 a2(1)
    by (auto simp: tomoyo_get_condition_step_def split: if_splits)
  have cc: "e_condc s2 = e_condc st - 1" using a2(5) a1(1,4) by simp
  have "e_numbers_count st = (e_numbers_count s2 + of_nat (length ns2)) + of_nat (length ns1)"
    using a2(4) a1(3) by simp
  then have nn: "e_numbers_count s2 + of_nat (length ns1 + length ns2) = e_numbers_count st"
    by (simp add: ac_simps)
  have "e_condc st' + of_nat (length (condp en) + 1) = condc en"
    using st' cc c by simp
  moreover have "e_numbers_count st' + of_nat (length (numbers_p en) + length ns1 + length ns2) =
                   numbers_count en"
  proof -
    have "e_numbers_count st' = e_numbers_count s2" using st' by simp
    moreover have "numbers_count en =
        (e_numbers_count s2 + of_nat (length ns1 + length ns2)) + of_nat (length (numbers_p en))"
      using nn n by simp
    ultimately show ?thesis by (simp add: ac_simps)
  qed
  moreover have "length (condp en) + 1 \<le> unat (condc en)" using lt by simp
  moreover have "length (numbers_p en) + length ns1 + length ns2 \<le> unat (numbers_count en)"
    using a2(3) a1(5) ln by (cases "ns2 = []"; cases "ns1 = []") simp_all
  moreover have "sum_list (map operands_of (condp en @ [?c])) =
                   length (numbers_p en) + length ns1 + length ns2"
    using s a1(2) a2(2) by (simp add: operands_of_def)
  ultimately show ?thesis
    unfolding second_inv_def st'
    by (intro exI [of _ "?en2\<lparr>condp := condp ?en2 @ [?c]\<rparr>"]) (simp add: add.assoc)
qed

lemma loop_second_inv:
  "tomoyo_get_condition_loop X st = Done fin \<Longrightarrow>
   \<forall>n\<in>set (tomoyo_condition_keyword X). fst n \<noteq> TOMOYO_NUMBER_UNION \<Longrightarrow>
   second_inv st \<Longrightarrow> second_inv fin"
proof (induction X st rule: tomoyo_get_condition_loop.induct)
  case (1 X st)
  show ?case
  proof (cases "byte_at (data st) (pos st) = NUL")
    case True
    with "1.prems" show ?thesis by (simp add: tomoyo_get_condition_loop.simps [of X st])
  next
    case False
    then obtain st' where step: "tomoyo_get_condition_step X st = Inr st'"
      and loop: "tomoyo_get_condition_loop X st' = Done fin"
      using "1.prems"(1)
      by (auto simp: tomoyo_get_condition_loop.simps [of X st] split: sum.splits parse_error.splits)
    from "1.IH" [OF False step loop "1.prems"(2) step_second_inv [OF "1.prems"(2,3) step]]
    show ?thesis .
  qed
qed

lemma second_inv_complete:
  assumes "second_inv st" and "entry_block st = Some e"
      and "(e_numbers_count st OR e_condc st) = 0"
  shows "block_complete e"
proof -
  from assms(1,2) have c: "e_condc st + of_nat (length (condp e)) = condc e"
    and n: "e_numbers_count st + of_nat (length (numbers_p e)) = numbers_count e"
    and lc: "length (condp e) \<le> unat (condc e)" and ln: "length (numbers_p e) \<le> unat (numbers_count e)"
    and s: "sum_list (map operands_of (condp e)) = length (numbers_p e)"
    by (auto simp: second_inv_def)
  from assms(3) have z: "e_numbers_count st = 0" "e_condc st = 0"
    by (simp_all add: or_eq_0_iff)
  have "unat (of_nat (length (condp e)) :: u16) = length (condp e)"
    using lc by (rule le_unat_uoi)
  moreover have "unat (of_nat (length (numbers_p e)) :: u16) = length (numbers_p e)"
    using ln by (rule le_unat_uoi)
  ultimately show ?thesis
    using c n z s by (simp add: block_complete_def)
qed

lemma commit_complete:
  assumes "\<forall>n\<in>set lst. block_complete (snd n)" and "block_complete e"
  shows "\<forall>n\<in>set (condition_list (tomoyo_commit_condition L X lst entry e)). block_complete (snd n)"
proof -
  have upd: "block_complete (a\<lparr>users := u\<rparr>) = block_complete a" for a u
    by (simp add: block_complete_def)
  have share: "tomoyo_share L lst e = Some (lst', p) \<Longrightarrow>
                 \<forall>n\<in>set lst. block_complete (snd n) \<Longrightarrow> \<forall>n\<in>set lst'. block_complete (snd n)"
    for lst lst' p
  proof (induction lst arbitrary: lst')
    case Nil
    then show ?case by simp
  next
    case (Cons n lst)
    obtain q a where n: "n = (q, a)" by (cases n)
    show ?case
    proof (cases "tomoyo_same_condition L a e")
      case True
      with Cons.prems n show ?thesis by (auto simp: upd)
    next
      case False
      with Cons.prems n obtain r where r: "tomoyo_share L lst e = Some (r, p)" and l: "lst' = (q, a) # r"
        by (auto split: option.splits)
      from Cons.IH [OF r] Cons.prems(2) l n show ?thesis by auto
    qed
  qed
  show ?thesis
    using assms share [of lst]
    by (auto simp: tomoyo_commit_condition_def upd split: option.splits)
qed

lemma get_condition_complete:
  assumes tab: "\<forall>n\<in>set (tomoyo_condition_keyword X). fst n \<noteq> TOMOYO_NUMBER_UNION"
      and lst: "\<forall>n\<in>set lst. block_complete (snd n)"
      and r: "tomoyo_get_condition L X lst s = Returns eff"
  shows "\<forall>n\<in>set (condition_list eff). block_complete (snd n)"
proof (cases "tomoyo_get_condition_loop X (first_pass s)")
  case Goto_out
  with r lst show ?thesis by (auto simp: tomoyo_get_condition_def)
next
  case Write_past_block
  with r show ?thesis by (simp add: tomoyo_get_condition_def)
next
  case (Done st1)
  define e_size where "e_size = sizeof_condition L
                        + ucast (e_condc st1) * sizeof_condition_element L
                        + ucast (e_numbers_count st1) * sizeof_number_union L"
  show ?thesis
  proof (cases "kzalloc X e_size")
    case None
    with r lst Done show ?thesis by (auto simp: tomoyo_get_condition_def e_size_def)
  next
    case (Some entry)
    define sb where "sb = st1\<lparr>data := tomoyo_restore False (data st1), pos := 0,
                               entry_block :=
                                 Some \<lparr>users = 0, size_c = e_size, condc = e_condc st1,
                                       numbers_count = e_numbers_count st1,
                                       condp = [], numbers_p = []\<rparr>\<rparr>"
    have inv: "second_inv sb" by (simp add: second_inv_def sb_def)
    have eq: "Returns eff = (case tomoyo_get_condition_loop X sb of
                       Goto_out \<Rightarrow> Returns \<lparr>returned = None, condition_list = lst,
                                released = [Tomoyo_del_condition entry, Kfree entry]\<rparr>
                     | Write_past_block \<Rightarrow> Writes_past_block
                     | Done st2 \<Rightarrow>
                       (case entry_block st2 of
                          None \<Rightarrow> BUG
                        | Some e \<Rightarrow>
                            if (e_numbers_count st2 OR e_condc st2) \<noteq> 0 then BUG
                            else Returns (tomoyo_commit_condition L X lst entry e)))"
      using Done Some r
      by (simp add: tomoyo_get_condition_def e_size_def [symmetric] Let_def sb_def [symmetric]
               del: tomoyo_get_condition_loop.simps)
    show ?thesis
    proof (cases "tomoyo_get_condition_loop X sb")
      case Goto_out
      with eq lst show ?thesis by auto
    next
      case Write_past_block
      with eq show ?thesis by simp
    next
      case (Done st2)
      from loop_second_inv [OF Done tab inv] have i2: "second_inv st2" .
      then obtain e where e: "entry_block st2 = Some e" by (auto simp: second_inv_def)
      with eq Done have z: "(e_numbers_count st2 OR e_condc st2) = 0"
        and res: "eff = tomoyo_commit_condition L X lst entry e"
        by (auto split: if_splits)
      from second_inv_complete [OF i2 e z] have "block_complete e" .
      from commit_complete [OF lst this] res show ?thesis by simp
    qed
  qed
qed

subsection \<open>Two expressions\<close>

text \<open>
  Claim C9, as stated, fails: the word \<open>0\<close> is no keyword, so the expression of the
  specification compiles to a block with one operand, not with none.
\<close>

theorem tomoyo_get_condition_spec_expression_counterexample:
  "tomoyo_get_condition arm_layout spec_collaborators [] ''task.uid=0 path1.uid!=task.uid'' =
     Returns \<lparr>returned = Some 64, condition_list = [(64, example_block 1)], released = []\<rparr> \<and>
   numbers_count (example_block 1) = 1"
  unfolding example_block_def by code_simp

text \<open>
  Claim C9, amended. With a table that has \<open>task.uid\<close> and \<open>path1.uid\<close> as keywords and
  not \<open>0\<close>, a literal parser that accepts \<open>0\<close>, and an allocation and a commit that
  succeed, parsing \<open>task.uid=0 path1.uid!=task.uid\<close> returns a condition with
  \<open>condc = 2\<close> and \<open>numbers_count = 1\<close>.
\<close>

theorem tomoyo_get_condition_spec_expression:
  assumes kw: "tomoyo_condition_type (tomoyo_condition_keyword X) ''task.uid'' = TOMOYO_TASK_UID"
       "tomoyo_condition_type (tomoyo_condition_keyword X) ''path1.uid'' = TOMOYO_PATH1_UID"
       "tomoyo_condition_type (tomoyo_condition_keyword X) ''0'' = TOMOYO_MAX_CONDITION_KEYWORD"
    and pn: "tomoyo_parse_number_union X ''0'' = Some n0"
    and k: "kzalloc X (sizeof_condition L + 2 * sizeof_condition_element L + sizeof_number_union L)
              = Some entry"
    and l: "mutex_lock_interruptible X = 0"
    and m: "(\<exists>n\<in>set lst. tomoyo_same_condition L (snd n)
               \<lparr>users = 0,
                size_c = sizeof_condition L + 2 * sizeof_condition_element L + sizeof_number_union L,
                condc = 2, numbers_count = 1,
                condp = [\<lparr>left = TOMOYO_TASK_UID, right = TOMOYO_NUMBER_UNION, equals = True\<rparr>,
                         \<lparr>left = TOMOYO_PATH1_UID, right = TOMOYO_TASK_UID, equals = False\<rparr>],
                numbers_p = [n0]\<rparr>) \<or>
            tomoyo_memory_ok X
               \<lparr>users = 0,
                size_c = sizeof_condition L + 2 * sizeof_condition_element L + sizeof_number_union L,
                condc = 2, numbers_count = 1,
                condp = [\<lparr>left = TOMOYO_TASK_UID, right = TOMOYO_NUMBER_UNION, equals = True\<rparr>,
                         \<lparr>left = TOMOYO_PATH1_UID, right = TOMOYO_TASK_UID, equals = False\<rparr>],
                numbers_p = [n0]\<rparr>"
  shows "\<exists>eff p c. tomoyo_get_condition L X lst ''task.uid=0 path1.uid!=task.uid'' = Returns eff \<and>
           returned eff = Some p \<and> (p, c) \<in> set (condition_list eff) \<and>
           condc c = 2 \<and> numbers_count c = 1"
proof -
  define s where "s = ''task.uid=0 path1.uid!=task.uid''"
  define buf1 where "buf1 = ''task.uid'' @ NUL # ''0'' @ NUL # ''path1.uid!=task.uid''"
  define buf2 where "buf2 = ''task.uid'' @ NUL # ''0'' @ NUL # ''path1.uid'' @ NUL # ''=task.uid''"
  define e1 where "e1 = \<lparr>users = 0,
                size_c = sizeof_condition L + 2 * sizeof_condition_element L + sizeof_number_union L,
                condc = 2, numbers_count = 1,
                condp = [\<lparr>left = TOMOYO_TASK_UID, right = TOMOYO_NUMBER_UNION, equals = True\<rparr>,
                         \<lparr>left = TOMOYO_PATH1_UID, right = TOMOYO_TASK_UID, equals = False\<rparr>],
                numbers_p = [n0]\<rparr>"
  have sp1: "tomoyo_split_clause s 0 = Some (buf1, 11, 9, False)"
    unfolding s_def buf1_def by code_simp
  have sp2: "tomoyo_split_clause buf1 11 = Some (buf2, 30, 22, True)"
    unfolding buf1_def buf2_def by code_simp
  have w: "c_string buf1 0 = ''task.uid''" "c_string buf1 9 = ''0''"
      "c_string buf2 11 = ''path1.uid''" "c_string buf2 22 = ''task.uid''"
    unfolding buf1_def buf2_def by code_simp+
  have b: "byte_at s 0 \<noteq> NUL" "byte_at buf1 11 \<noteq> NUL" "byte_at buf2 30 = NUL"
    unfolding s_def buf1_def buf2_def by code_simp+
  have rs: "tomoyo_restore False buf2 = s"
    unfolding s_def buf2_def by code_simp
  have p1: "tomoyo_get_condition_loop X (first_pass s) =
              Done \<lparr>data = buf2, pos = 30, e_condc = 2, e_numbers_count = 1, entry_block = None\<rparr>"
    by (simp add: first_pass_def tomoyo_get_condition_step_def sp1 sp2 w b parse_side_dry kw)
  have p2: "tomoyo_get_condition_loop X
              \<lparr>data = s, pos = 0, e_condc = 2, e_numbers_count = 1,
               entry_block = Some \<lparr>users = 0,
                 size_c = sizeof_condition L + 2 * sizeof_condition_element L + sizeof_number_union L,
                 condc = 2, numbers_count = 1, condp = [], numbers_p = []\<rparr>\<rparr> =
              Done \<lparr>data = buf2, pos = 30, e_condc = 0, e_numbers_count = 0, entry_block = Some e1\<rparr>"
    by (simp add: tomoyo_get_condition_step_def sp1 sp2 w b tomoyo_parse_side_def kw pn e1_def)
  have r: "tomoyo_get_condition L X lst s = Returns (tomoyo_commit_condition L X lst entry e1)"
    using k
    by (simp add: tomoyo_get_condition_def p1 rs p2
             del: tomoyo_get_condition_loop.simps)
  from commit_success [OF l m [folded e1_def], of entry]
  obtain p c where "returned (tomoyo_commit_condition L X lst entry e1) = Some p"
    "(p, c) \<in> set (condition_list (tomoyo_commit_condition L X lst entry e1))"
    "condc c = 2" "numbers_count c = 1"
    by (auto simp: e1_def)
  with r show ?thesis unfolding s_def by blast
qed

theorem tomoyo_get_condition_spec_expression_witness:
  "tomoyo_condition_type (tomoyo_condition_keyword spec_collaborators) ''task.uid'' = TOMOYO_TASK_UID \<and>
   tomoyo_condition_type (tomoyo_condition_keyword spec_collaborators) ''path1.uid'' = TOMOYO_PATH1_UID \<and>
   tomoyo_condition_type (tomoyo_condition_keyword spec_collaborators) ''0'' =
     TOMOYO_MAX_CONDITION_KEYWORD \<and>
   tomoyo_parse_number_union spec_collaborators ''0'' =
     Some \<lparr>values_0 = 0, values_1 = 0, group = None\<rparr> \<and>
   mutex_lock_interruptible spec_collaborators = 0 \<and>
   (\<exists>eff p c. tomoyo_get_condition arm_layout spec_collaborators []
                 ''task.uid=0 path1.uid!=task.uid'' = Returns eff \<and>
      returned eff = Some p \<and> (p, c) \<in> set (condition_list eff) \<and>
      condc c = 2 \<and> numbers_count c = 1)"
proof -
  have kw: "tomoyo_condition_type (tomoyo_condition_keyword spec_collaborators) ''task.uid'' = TOMOYO_TASK_UID"
       "tomoyo_condition_type (tomoyo_condition_keyword spec_collaborators) ''path1.uid'' = TOMOYO_PATH1_UID"
       "tomoyo_condition_type (tomoyo_condition_keyword spec_collaborators) ''0'' = TOMOYO_MAX_CONDITION_KEYWORD"
    and pn: "tomoyo_parse_number_union spec_collaborators ''0'' =
               Some \<lparr>values_0 = 0, values_1 = 0, group = None\<rparr>"
    and k: "kzalloc spec_collaborators
              (sizeof_condition arm_layout + 2 * sizeof_condition_element arm_layout +
               sizeof_number_union arm_layout) = Some 64"
    and l: "mutex_lock_interruptible spec_collaborators = 0"
    by (simp_all add: spec_collaborators_def)
  have m: "tomoyo_memory_ok spec_collaborators e" for e
    by (simp add: spec_collaborators_def)
  from tomoyo_get_condition_spec_expression [OF kw pn k l disjI2 [OF m], of "[]"] kw pn l show ?thesis by simp
qed

text \<open>
  Claim C10. When the allocation and the commit succeed, parsing the empty string returns
  a condition with \<open>condc = 0\<close>, \<open>numbers_count = 0\<close> and the size of the header alone,
  and \<open>tomoyo_condition\<close> returns true on it for every request.
\<close>

theorem tomoyo_get_condition_empty:
  assumes k: "kzalloc X (sizeof_condition L) = Some entry"
      and l: "mutex_lock_interruptible X = 0"
      and m: "(\<exists>n\<in>set lst. tomoyo_same_condition L (snd n)
                  \<lparr>users = 0, size_c = sizeof_condition L, condc = 0, numbers_count = 0,
                   condp = [], numbers_p = []\<rparr>) \<or>
              tomoyo_memory_ok X \<lparr>users = 0, size_c = sizeof_condition L, condc = 0,
                   numbers_count = 0, condp = [], numbers_p = []\<rparr>"
  shows "\<exists>eff p c. tomoyo_get_condition L X lst [] = Returns eff \<and> returned eff = Some p \<and>
           (p, c) \<in> set (condition_list eff) \<and> condc c = 0 \<and> numbers_count c = 0 \<and>
           size_c c = sizeof_condition L \<and>
           (\<forall>K T G r. tomoyo_condition K T G r (Some c) = (Some True, obj r))"
proof -
  let ?e = "\<lparr>users = 0, size_c = sizeof_condition L, condc = 0, numbers_count = 0,
                   condp = [], numbers_p = []\<rparr>"
  have r: "tomoyo_get_condition L X lst [] = Returns (tomoyo_commit_condition L X lst entry ?e)"
    using k by (simp add: tomoyo_get_condition_def first_pass_def byte_at_def)
  from commit_success [OF l m, of entry]
  obtain p c where pc: "returned (tomoyo_commit_condition L X lst entry ?e) = Some p"
    "(p, c) \<in> set (condition_list (tomoyo_commit_condition L X lst entry ?e))"
    "size_c c = sizeof_condition L" "condc c = 0" "numbers_count c = 0"
    by auto
  have "tomoyo_condition K T G r (Some c) = (Some True, obj r)" for K T G r
    using pc(4) by (simp add: tomoyo_condition_def)
  with r pc show ?thesis by blast
qed

theorem tomoyo_get_condition_empty_witness:
  "kzalloc spec_collaborators (sizeof_condition arm_layout) = Some 64 \<and>
   mutex_lock_interruptible spec_collaborators = 0 \<and>
   tomoyo_memory_ok spec_collaborators \<lparr>users = 0, size_c = sizeof_condition arm_layout,
      condc = 0, numbers_count = 0, condp = [], numbers_p = []\<rparr> \<and>
   (\<exists>eff p c. tomoyo_get_condition arm_layout spec_collaborators [] [] = Returns eff \<and>
      returned eff = Some p \<and> (p, c) \<in> set (condition_list eff) \<and> condc c = 0 \<and>
      numbers_count c = 0 \<and> size_c c = sizeof_condition arm_layout \<and>
      (\<forall>K T G r. tomoyo_condition K T G r (Some c) = (Some True, obj r)))"
proof -
  have k: "kzalloc spec_collaborators (sizeof_condition arm_layout) = Some 64"
    and l: "mutex_lock_interruptible spec_collaborators = 0"
    and m: "tomoyo_memory_ok spec_collaborators \<lparr>users = 0, size_c = sizeof_condition arm_layout,
      condc = 0, numbers_count = 0, condp = [], numbers_p = []\<rparr>"
    by (simp_all add: spec_collaborators_def)
  from tomoyo_get_condition_empty [OF k l disjI2 [OF m], of "[]"] k l m show ?thesis by simp
qed

end
